theory Spec2Isabelle
  imports Complex_Main
begin

section \<open>Python results and errors\<close>

text \<open>
  The program is \<^verbatim>\<open>smplparameter2mesh/get_smpl.py\<close>: the class \<^verbatim>\<open>SMPLModel\<close>, built on
  numpy arrays. An exception is a value of \<open>py_error\<close>; a computation that may raise
  returns \<open>py_error + 'a\<close>, with \<open>Inl\<close> for the exception. Array entries are float64 in
  the program and real numbers here: rounding, infinities and NaN are outside the model,
  and every statement below about entries is a statement of real arithmetic.
\<close>

datatype py_error = ValueError | IndexError | KeyError | TypeError

type_synonym 'a result = "py_error + 'a"

definition bnd :: "'a result \<Rightarrow> ('a \<Rightarrow> 'b result) \<Rightarrow> 'b result" where
  "bnd r f = (case r of Inl e \<Rightarrow> Inl e | Inr v \<Rightarrow> f v)"

section \<open>numpy arrays\<close>

text \<open>
  An array is its shape and its entries in row-major (C) order. \<open>unravel\<close> and
  \<open>ravel\<close> convert between a flat position and a multi-index; \<open>tabulate\<close> builds the
  array of a shape from a function of the multi-index.
\<close>

datatype 'a ndarray = NDArray (shape: "nat list") (flat: "'a list")

definition ndim :: "'a ndarray \<Rightarrow> nat" where
  "ndim a = length (shape a)"

definition nd_size :: "'a ndarray \<Rightarrow> nat" where
  "nd_size a = prod_list (shape a)"

definition wf_nd :: "'a ndarray \<Rightarrow> bool" where
  "wf_nd a = (length (flat a) = prod_list (shape a))"

fun unravel :: "nat list \<Rightarrow> nat \<Rightarrow> nat list" where
  "unravel [] k = []"
| "unravel (d # ds) k = (k div prod_list ds) # unravel ds (k mod prod_list ds)"

fun ravel :: "nat list \<Rightarrow> nat list \<Rightarrow> nat" where
  "ravel (d # ds) (i # js) = i * prod_list ds + ravel ds js"
| "ravel _ _ = 0"

definition valid_idx :: "nat list \<Rightarrow> nat list \<Rightarrow> bool" where
  "valid_idx sh idx = list_all2 (<) idx sh"

definition get :: "'a ndarray \<Rightarrow> nat list \<Rightarrow> 'a" where
  "get a idx = flat a ! ravel (shape a) idx"

definition tabulate :: "nat list \<Rightarrow> (nat list \<Rightarrow> 'a) \<Rightarrow> 'a ndarray" where
  "tabulate sh f = NDArray sh (map (\<lambda>k. f (unravel sh k)) [0..<prod_list sh])"

text \<open>\<^verbatim>\<open>a.shape[k]\<close>: a tuple index out of range is an IndexError.\<close>

definition shape_at :: "'a ndarray \<Rightarrow> nat \<Rightarrow> nat result" where
  "shape_at a k = (if k < ndim a then Inr (shape a ! k) else Inl IndexError)"

subsection \<open>Creation\<close>

definition zeros :: "nat list \<Rightarrow> real ndarray" where
  "zeros sh = tabulate sh (\<lambda>_. 0)"

definition ones :: "nat list \<Rightarrow> real ndarray" where
  "ones sh = tabulate sh (\<lambda>_. 1)"

definition eye :: "nat \<Rightarrow> real ndarray" where
  "eye n = tabulate [n, n] (\<lambda>idx. if idx ! 0 = idx ! 1 then 1 else 0)"

definition scalar :: "'a \<Rightarrow> 'a ndarray" where
  "scalar x = NDArray [] [x]"

text \<open>
  \<^verbatim>\<open>np.empty(shape)\<close> returns memory that is not initialised. Its content is the
  parameter \<open>g\<close> (the entry at each flat position), which every function that
  allocates with \<^verbatim>\<open>np.empty\<close> takes as an argument.
\<close>

definition np_empty :: "(nat \<Rightarrow> real) \<Rightarrow> nat list \<Rightarrow> real ndarray" where
  "np_empty g sh = NDArray sh (map g [0..<prod_list sh])"

definition map_nd :: "('a \<Rightarrow> 'b) \<Rightarrow> 'a ndarray \<Rightarrow> 'b ndarray" where
  "map_nd f a = NDArray (shape a) (map f (flat a))"

subsection \<open>Broadcasting\<close>

text \<open>
  Two shapes are aligned at their last axes; two lengths fit when they are equal or one
  of them is 1. \<open>bidx sh idx\<close> is the position in an operand of shape \<open>sh\<close> that the
  position \<open>idx\<close> of the broadcast result reads.
\<close>

fun bshape_rev :: "nat list \<Rightarrow> nat list \<Rightarrow> nat list option" where
  "bshape_rev [] ys = Some ys"
| "bshape_rev (x # xs) [] = Some (x # xs)"
| "bshape_rev (x # xs) (y # ys) =
     (if x = y \<or> y = 1 then map_option ((#) x) (bshape_rev xs ys)
      else if x = 1 then map_option ((#) y) (bshape_rev xs ys)
      else None)"

definition bshape :: "nat list \<Rightarrow> nat list \<Rightarrow> nat list option" where
  "bshape sa sb = map_option rev (bshape_rev (rev sa) (rev sb))"

definition bidx :: "nat list \<Rightarrow> nat list \<Rightarrow> nat list" where
  "bidx sh idx = map2 (\<lambda>d i. if d = 1 then 0 else i) sh (drop (length idx - length sh) idx)"

definition bop :: "('a \<Rightarrow> 'b \<Rightarrow> 'c) \<Rightarrow> 'a ndarray \<Rightarrow> 'b ndarray \<Rightarrow> 'c ndarray result" where
  "bop f a b =
     (case bshape (shape a) (shape b) of
        None \<Rightarrow> Inl ValueError
      | Some sh \<Rightarrow>
          Inr (tabulate sh (\<lambda>idx. f (get a (bidx (shape a) idx)) (get b (bidx (shape b) idx)))))"

definition broadcast_to :: "'a ndarray \<Rightarrow> int list \<Rightarrow> 'a ndarray result" where
  "broadcast_to a target =
     (if (\<exists>d\<in>set target. d < 0) then Inl ValueError
      else let t = map nat target in
        if length (shape a) \<le> length t \<and>
           list_all2 (\<lambda>d e. d = e \<or> d = 1) (shape a) (drop (length t - length (shape a)) t)
        then Inr (tabulate t (\<lambda>idx. get a (bidx (shape a) idx)))
        else Inl ValueError)"

subsection \<open>Reshaping\<close>

text \<open>
  \<^verbatim>\<open>a.reshape(newshape)\<close> keeps the entries in order. One length may be \<open>-1\<close>: it is
  inferred from the size, which the product of the others must divide.
\<close>

definition reshape :: "'a ndarray \<Rightarrow> int list \<Rightarrow> 'a ndarray result" where
  "reshape a ns =
     (if (\<exists>d\<in>set ns. d < - 1) \<or> 1 < length (filter (\<lambda>d. d = - 1) ns) then Inl ValueError
      else let known = prod_list (map nat (filter (\<lambda>d. d \<noteq> - 1) ns)) in
        if - 1 \<in> set ns then
          (if known = 0 \<or> nd_size a mod known \<noteq> 0 then Inl ValueError
           else Inr (NDArray (map (\<lambda>d. if d = - 1 then nd_size a div known else nat d) ns)
                       (flat a)))
        else if known = nd_size a then Inr (NDArray (map nat ns) (flat a))
        else Inl ValueError)"

definition ravel_nd :: "'a ndarray \<Rightarrow> 'a ndarray" where
  "ravel_nd a = NDArray [nd_size a] (flat a)"

definition expand_dims0 :: "'a ndarray \<Rightarrow> 'a ndarray" where
  "expand_dims0 a = NDArray (1 # shape a) (flat a)"

definition atleast_1d :: "'a ndarray \<Rightarrow> 'a ndarray" where
  "atleast_1d a = (case shape a of [] \<Rightarrow> NDArray [1] (flat a) | _ \<Rightarrow> a)"

definition atleast_2d :: "'a ndarray \<Rightarrow> 'a ndarray" where
  "atleast_2d a =
     (case shape a of
        [] \<Rightarrow> NDArray [1, 1] (flat a)
      | [n] \<Rightarrow> NDArray [1, n] (flat a)
      | _ \<Rightarrow> a)"

definition atleast_3d :: "'a ndarray \<Rightarrow> 'a ndarray" where
  "atleast_3d a =
     (case shape a of
        [] \<Rightarrow> NDArray [1, 1, 1] (flat a)
      | [n] \<Rightarrow> NDArray [1, n, 1] (flat a)
      | [m, n] \<Rightarrow> NDArray [m, n, 1] (flat a)
      | _ \<Rightarrow> a)"

text \<open>
  \<^verbatim>\<open>np.transpose(a, axes)\<close>: axis \<open>j\<close> of the result is axis \<open>axes ! j\<close> of \<open>a\<close>;
  \<open>axes\<close> must be a permutation of the axes of \<open>a\<close>.
\<close>

definition transpose_nd :: "'a ndarray \<Rightarrow> nat list \<Rightarrow> 'a ndarray result" where
  "transpose_nd a axes =
     (if length axes = ndim a \<and> set axes = {..<ndim a}
      then Inr (tabulate (map (\<lambda>k. shape a ! k) axes)
                  (\<lambda>idx. get a (map (\<lambda>k. idx ! length (takeWhile (\<lambda>x. x \<noteq> k) axes))
                                   [0..<ndim a])))
      else Inl ValueError)"

subsection \<open>Indexing\<close>

text \<open>
  An index expression is a list with one item per leading axis: \<open>At i\<close> is the integer
  \<open>i\<close> (the program only uses non-negative ones) and \<open>Slice lo hi\<close> is \<^verbatim>\<open>lo:hi\<close>
  (\<open>None\<close> for an open end). An integer out of range, or more items than axes, is an
  IndexError; a slice is clipped to the axis.
\<close>

datatype ix = At nat | Slice nat "nat option"

fun ix_ok :: "ix list \<Rightarrow> nat list \<Rightarrow> bool" where
  "ix_ok [] sh = True"
| "ix_ok (x # xs) [] = False"
| "ix_ok (At i # xs) (d # ds) = (i < d \<and> ix_ok xs ds)"
| "ix_ok (Slice lo hi # xs) (d # ds) = ix_ok xs ds"

fun ix_shape :: "ix list \<Rightarrow> nat list \<Rightarrow> nat list" where
  "ix_shape [] sh = sh"
| "ix_shape (x # xs) [] = []"
| "ix_shape (At i # xs) (d # ds) = ix_shape xs ds"
| "ix_shape (Slice lo hi # xs) (d # ds) =
     (min (case hi of None \<Rightarrow> d | Some h \<Rightarrow> h) d - min lo d) # ix_shape xs ds"

fun ix_src :: "ix list \<Rightarrow> nat list \<Rightarrow> nat list" where
  "ix_src [] idx = idx"
| "ix_src (At i # xs) idx = i # ix_src xs idx"
| "ix_src (Slice lo hi # xs) [] = []"
| "ix_src (Slice lo hi # xs) (j # idx) = (lo + j) # ix_src xs idx"

definition getitem :: "'a ndarray \<Rightarrow> ix list \<Rightarrow> 'a ndarray result" where
  "getitem a xs =
     (if ix_ok xs (shape a)
      then Inr (tabulate (ix_shape xs (shape a)) (\<lambda>idx. get a (ix_src xs idx)))
      else Inl IndexError)"

text \<open>
  \<^verbatim>\<open>a[i] = x\<close>: the value is broadcast to the shape of \<^verbatim>\<open>a[i]\<close>. (numpy also drops
  leading axes of length 1 of a value with more axes than \<^verbatim>\<open>a[i]\<close>; the program
  assigns the result of \<^verbatim>\<open>with_zeros\<close> or of a product of two matrices, which has
  two axes, to a slot with two axes.)
\<close>

definition setitem0 :: "'a ndarray \<Rightarrow> nat \<Rightarrow> 'a ndarray \<Rightarrow> 'a ndarray result" where
  "setitem0 a i x =
     (case shape a of
        [] \<Rightarrow> Inl IndexError
      | d # ds \<Rightarrow>
          if d \<le> i then Inl IndexError
          else if length (shape x) \<le> length ds \<and>
                  list_all2 (\<lambda>d e. d = e \<or> d = 1) (shape x)
                    (drop (length ds - length (shape x)) ds)
          then Inr (tabulate (shape a)
                  (\<lambda>idx. if hd idx = i then get x (bidx (shape x) (tl idx)) else get a idx))
          else Inl ValueError)"

subsection \<open>Joining\<close>

fun pick :: "'a ndarray list \<Rightarrow> nat \<Rightarrow> nat list \<Rightarrow> 'a" where
  "pick (a # rest) ax idx =
     (if idx ! ax < shape a ! ax then get a idx
      else pick rest ax (idx[ax := idx ! ax - shape a ! ax]))"

definition concatenate :: "nat \<Rightarrow> 'a ndarray list \<Rightarrow> 'a ndarray result" where
  "concatenate ax arrs =
     (case arrs of
        [] \<Rightarrow> Inl ValueError
      | a # rest \<Rightarrow>
          if ndim a \<le> ax then Inl ValueError
          else if (\<forall>b\<in>set rest. ndim b = ndim a \<and> (shape b)[ax := 0] = (shape a)[ax := 0])
          then Inr (tabulate ((shape a)[ax := sum_list (map (\<lambda>b. shape b ! ax) arrs)])
                      (pick arrs ax))
          else Inl ValueError)"

definition hstack :: "'a ndarray list \<Rightarrow> 'a ndarray result" where
  "hstack arrs =
     (case map atleast_1d arrs of
        [] \<Rightarrow> Inl ValueError
      | a # rest \<Rightarrow> if ndim a = 1 then concatenate 0 (a # rest) else concatenate 1 (a # rest))"

definition vstack :: "'a ndarray list \<Rightarrow> 'a ndarray result" where
  "vstack arrs = concatenate 0 (map atleast_2d arrs)"

definition dstack :: "'a ndarray list \<Rightarrow> 'a ndarray result" where
  "dstack arrs = concatenate 2 (map atleast_3d arrs)"

subsection \<open>Products and norms\<close>

text \<open>
  \<^verbatim>\<open>a.dot(b)\<close>: with a scalar operand it multiplies; with \<open>b\<close> of one axis it sums
  over the last axis of \<open>a\<close> and \<open>b\<close>; otherwise over the last axis of \<open>a\<close> and the
  last but one of \<open>b\<close>.
\<close>

definition dot :: "real ndarray \<Rightarrow> real ndarray \<Rightarrow> real ndarray result" where
  "dot a b =
     (if ndim a = 0 \<or> ndim b = 0 then bop (*) a b
      else if ndim b = 1 then
        (if last (shape a) = hd (shape b)
         then Inr (tabulate (butlast (shape a))
                (\<lambda>idx. sum_list (map (\<lambda>k. get a (idx @ [k]) * get b [k]) [0..<hd (shape b)])))
         else Inl ValueError)
      else
        (let n = ndim a - 1; m = ndim b - 2 in
         if last (shape a) = shape b ! m
         then Inr (tabulate (butlast (shape a) @ take m (shape b) @ [last (shape b)])
                (\<lambda>idx. sum_list (map (\<lambda>k. get a (take n idx @ [k]) *
                                           get b (take m (drop n idx) @ [k, last idx]))
                                   [0..<last (shape a)])))
         else Inl ValueError))"

text \<open>
  \<^verbatim>\<open>np.matmul(a, b)\<close> for operands of at least two axes: the last two axes are
  multiplied as matrices and the leading axes are broadcast. (numpy promotes an operand
  of one axis to a matrix; every call of the program passes arrays of three or more
  axes, so that case is refused here like the scalar one.)
\<close>

definition matmul :: "real ndarray \<Rightarrow> real ndarray \<Rightarrow> real ndarray result" where
  "matmul a b =
     (if ndim a < 2 \<or> ndim b < 2 then Inl ValueError
      else
        (let ba = butlast (butlast (shape a)); bb = butlast (butlast (shape b)) in
         case bshape ba bb of
           None \<Rightarrow> Inl ValueError
         | Some bs \<Rightarrow>
             if last (shape a) = last (butlast (shape b))
             then Inr (tabulate (bs @ [last (butlast (shape a)), last (shape b)])
                    (\<lambda>idx. let bi = take (length bs) idx;
                               i = idx ! length bs; j = idx ! Suc (length bs) in
                           sum_list (map (\<lambda>k. get a (bidx ba bi @ [i, k]) *
                                              get b (bidx bb bi @ [k, j]))
                                      [0..<last (shape a)])))
             else Inl ValueError))"

text \<open>\<^verbatim>\<open>np.tensordot(a, b, axes=[[1], [0]])\<close>: axis 1 of \<open>a\<close> is summed with axis 0 of \<open>b\<close>.\<close>

definition tensordot_1_0 :: "real ndarray \<Rightarrow> real ndarray \<Rightarrow> real ndarray result" where
  "tensordot_1_0 a b =
     (if ndim a < 2 \<or> ndim b < 1 then Inl IndexError
      else if shape a ! 1 = shape b ! 0
      then Inr (tabulate (hd (shape a) # drop 2 (shape a) @ tl (shape b))
             (\<lambda>idx. let na = ndim a - 1 in
                    sum_list (map (\<lambda>k. get a (hd idx # k # tl (take na idx)) *
                                       get b (k # drop na idx))
                               [0..<shape b ! 0])))
      else Inl ValueError)"

text \<open>
  \<^verbatim>\<open>np.linalg.norm(r, axis=(1, 2), keepdims=True)\<close>: the Frobenius norm of each
  matrix spanned by axes 1 and 2, which stay in the result with length 1.
\<close>

definition norm_axes12 :: "real ndarray \<Rightarrow> real ndarray result" where
  "norm_axes12 r =
     (if ndim r < 3 then Inl ValueError
      else Inr (tabulate ((shape r)[1 := 1, 2 := 1])
             (\<lambda>idx. sqrt (sum_list (map (\<lambda>i. sum_list (map (\<lambda>j. (get r (idx[1 := i, 2 := j]))\<^sup>2)
                                                      [0..<shape r ! 2]))
                                     [0..<shape r ! 1])))))"

section \<open>The SMPL model\<close>

text \<open>
  The object \<^verbatim>\<open>self\<close>. The first group of fields is the rig loaded from the archive
  (never assigned after \<^verbatim>\<open>__init__\<close>), the second the current parameters, the third
  the derived state; \<^verbatim>\<open>verts\<close>, \<^verbatim>\<open>J\<close> and \<^verbatim>\<open>R\<close> are \<^verbatim>\<open>None\<close> until the first update.
\<close>

record SMPLModel =
  J_regressor :: "real ndarray"
  weights :: "real ndarray"
  posedirs :: "real ndarray"
  v_template :: "real ndarray"
  shapedirs :: "real ndarray"
  faces :: "int ndarray"
  kintree_table :: "int ndarray"
  parent :: "nat \<rightharpoonup> nat"
  pose_shape :: "nat list"
  beta_shape :: "nat list"
  trans_shape :: "nat list"
  pose :: "real ndarray"
  beta :: "real ndarray"
  trans :: "real ndarray"
  verts :: "real ndarray option"
  J :: "real ndarray option"
  R :: "real ndarray option"

subsection \<open>\<^verbatim>\<open>with_zeros\<close> and \<^verbatim>\<open>pack\<close>\<close>

definition with_zeros :: "real ndarray \<Rightarrow> real ndarray result" where
  "with_zeros x = vstack [x, NDArray [1, 4] [0, 0, 0, 1]]"

definition pack :: "real ndarray \<Rightarrow> real ndarray result" where
  "pack x = bnd (shape_at x 0) (\<lambda>n. dstack [zeros [n, 4, 3], x])"

subsection \<open>\<^verbatim>\<open>rodrigues\<close>\<close>

text \<open>\<^verbatim>\<open>np.finfo(np.float64).eps\<close>, the distance from 1.0 to the next float64.\<close>

definition float64_eps :: real where
  "float64_eps = 1 / 2 ^ 52"

text \<open>
  Lines 125 to 128: the clamped angle of each vector of the batch, and the axis.
\<close>

definition rodrigues_theta :: "real ndarray \<Rightarrow> real ndarray result" where
  "rodrigues_theta r = bnd (norm_axes12 r) (\<lambda>theta. bop max theta (scalar float64_eps))"

definition rodrigues :: "real ndarray \<Rightarrow> real ndarray result" where
  "rodrigues r =
     bnd (rodrigues_theta r) (\<lambda>theta.
     bnd (bop (/) r theta) (\<lambda>r_hat.
     let cos_theta = map_nd cos theta in
     bnd (shape_at theta 0) (\<lambda>n.
     let z_stick = zeros [n] in
     bnd (getitem r_hat [Slice 0 None, At 0, At 2]) (\<lambda>r02.
     bnd (getitem r_hat [Slice 0 None, At 0, At 1]) (\<lambda>r01.
     bnd (getitem r_hat [Slice 0 None, At 0, At 0]) (\<lambda>r00.
     bnd (dstack [z_stick, map_nd uminus r02, r01,
                  r02, z_stick, map_nd uminus r00,
                  map_nd uminus r01, r00, z_stick]) (\<lambda>st.
     bnd (reshape st [- 1, 3, 3]) (\<lambda>m.
     bnd (broadcast_to (expand_dims0 (eye 3)) [int n, 3, 3]) (\<lambda>i_cube.
     bnd (transpose_nd r_hat [0, 2, 1]) (\<lambda>A.
     bnd (matmul A r_hat) (\<lambda>dt.
     bnd (bop (*) cos_theta i_cube) (\<lambda>t1.
     bnd (bop (-) (scalar 1) cos_theta) (\<lambda>omc.
     bnd (bop (*) omc dt) (\<lambda>t2.
     bnd (bop (+) t1 t2) (\<lambda>t12.
     bnd (bop (*) (map_nd sin theta) m) (\<lambda>t3.
     bop (+) t12 t3))))))))))))))))"

subsection \<open>\<^verbatim>\<open>update\<close>\<close>

text \<open>Line 78: \<^verbatim>\<open>v_shaped\<close>.\<close>

definition shape_blend :: "'z SMPLModel_scheme \<Rightarrow> real ndarray result" where
  "shape_blend s = bnd (dot (shapedirs s) (beta s)) (\<lambda>x. bop (+) x (v_template s))"

text \<open>Lines 81 to 83: \<^verbatim>\<open>pose_cube\<close> and the rotation of each joint.\<close>

definition joint_rotations :: "'z SMPLModel_scheme \<Rightarrow> real ndarray result" where
  "joint_rotations s = bnd (reshape (pose s) [- 1, 1, 3]) rodrigues"

text \<open>Lines 84 to 90: \<^verbatim>\<open>I_cube\<close>, \<^verbatim>\<open>lrotmin\<close> and \<^verbatim>\<open>v_posed\<close>.\<close>

definition pose_blend ::
  "'z SMPLModel_scheme \<Rightarrow> real ndarray \<Rightarrow> real ndarray \<Rightarrow> real ndarray result" where
  "pose_blend s v_shaped Rv =
     bnd (shape_at Rv 0) (\<lambda>n.
     bnd (broadcast_to (expand_dims0 (eye 3)) [int n - 1, 3, 3]) (\<lambda>I_cube.
     bnd (getitem Rv [Slice 1 None]) (\<lambda>R1.
     bnd (bop (-) R1 I_cube) (\<lambda>d.
     let lrotmin = ravel_nd d in
     bnd (dot (posedirs s) lrotmin) (\<lambda>pd.
     bop (+) v_shaped pd)))))"

text \<open>
  Line 93 and lines 96 to 100: the local transform of the root and of joint \<open>i\<close> with
  parent \<open>p\<close>.
\<close>

definition local_root :: "real ndarray \<Rightarrow> real ndarray \<Rightarrow> real ndarray result" where
  "local_root Rv Jv =
     bnd (getitem Rv [At 0]) (\<lambda>R0.
     bnd (getitem Jv [At 0, Slice 0 None]) (\<lambda>J0.
     bnd (reshape J0 [3, 1]) (\<lambda>t.
     bnd (hstack [R0, t]) with_zeros)))"

definition local_child ::
  "real ndarray \<Rightarrow> real ndarray \<Rightarrow> nat \<Rightarrow> nat \<Rightarrow> real ndarray result" where
  "local_child Rv Jv i p =
     bnd (getitem Rv [At i]) (\<lambda>Ri.
     bnd (getitem Jv [At i, Slice 0 None]) (\<lambda>Ji.
     bnd (getitem Jv [At p, Slice 0 None]) (\<lambda>Jp.
     bnd (bop (-) Ji Jp) (\<lambda>d.
     bnd (reshape d [3, 1]) (\<lambda>t.
     bnd (hstack [Ri, t]) with_zeros)))))"

text \<open>
  Lines 92 to 101: the world transform of each joint. The body of the loop is
  \<open>kin_step\<close>; the loop runs over \<^verbatim>\<open>range(1, K)\<close> in increasing order and reads
  \<^verbatim>\<open>G[parent[i]]\<close> from the array it is filling.
\<close>

definition kin_step ::
  "(nat \<rightharpoonup> nat) \<Rightarrow> real ndarray \<Rightarrow> real ndarray \<Rightarrow> nat \<Rightarrow> real ndarray \<Rightarrow> real ndarray result"
  where
  "kin_step par Rv Jv i G =
     (case par i of
        None \<Rightarrow> Inl KeyError
      | Some p \<Rightarrow>
          bnd (getitem G [At p]) (\<lambda>Gp.
          bnd (local_child Rv Jv i p) (\<lambda>L.
          bnd (dot Gp L) (\<lambda>x.
          setitem0 G i x))))"

fun kin_loop ::
  "(nat \<rightharpoonup> nat) \<Rightarrow> real ndarray \<Rightarrow> real ndarray \<Rightarrow> nat list \<Rightarrow> real ndarray \<Rightarrow> real ndarray result"
  where
  "kin_loop par Rv Jv [] G = Inr G"
| "kin_loop par Rv Jv (i # rest) G = bnd (kin_step par Rv Jv i G) (kin_loop par Rv Jv rest)"

definition world_transforms ::
  "(nat \<Rightarrow> real) \<Rightarrow> (nat \<rightharpoonup> nat) \<Rightarrow> nat \<Rightarrow> real ndarray \<Rightarrow> real ndarray \<Rightarrow> real ndarray result"
  where
  "world_transforms g par K Rv Jv =
     (let G = np_empty g [K, 4, 4] in
      bnd (local_root Rv Jv) (\<lambda>L0.
      bnd (setitem0 G 0 L0) (\<lambda>G0.
      kin_loop par Rv Jv [1..<K] G0)))"

text \<open>Lines 102 to 107: the rest-pose correction, with its literal 24.\<close>

definition rest_pose_correction :: "real ndarray \<Rightarrow> real ndarray \<Rightarrow> real ndarray result" where
  "rest_pose_correction G Jv =
     bnd (hstack [Jv, zeros [24, 1]]) (\<lambda>h.
     bnd (reshape h [24, 4, 1]) (\<lambda>Jh.
     bnd (matmul G Jh) (\<lambda>x.
     bnd (pack x) (\<lambda>P.
     bop (-) G P))))"

text \<open>Lines 109 to 111: the transform of each vertex and the skinned vertices \<^verbatim>\<open>v\<close>.\<close>

definition skinning ::
  "'z SMPLModel_scheme \<Rightarrow> real ndarray \<Rightarrow> real ndarray \<Rightarrow> real ndarray result" where
  "skinning s G v_posed =
     bnd (tensordot_1_0 (weights s) G) (\<lambda>T.
     bnd (shape_at v_posed 0) (\<lambda>n.
     bnd (hstack [v_posed, ones [n, 1]]) (\<lambda>rest_shape_h.
     bnd (reshape rest_shape_h [- 1, 4, 1]) (\<lambda>rh.
     bnd (matmul T rh) (\<lambda>x.
     bnd (reshape x [- 1, 4]) (\<lambda>y.
     getitem y [Slice 0 None, Slice 0 (Some 3)]))))))"

text \<open>
  Lines 84 to 111 in sequence: everything \<^verbatim>\<open>update\<close> computes after \<^verbatim>\<open>self.R\<close> and
  before it adds the translation.
\<close>

definition skinned_vertices ::
  "(nat \<Rightarrow> real) \<Rightarrow> 'z SMPLModel_scheme \<Rightarrow> real ndarray \<Rightarrow> real ndarray \<Rightarrow> real ndarray
     \<Rightarrow> real ndarray result" where
  "skinned_vertices g s v_shaped Jv Rv =
     bnd (pose_blend s v_shaped Rv) (\<lambda>v_posed.
     bnd (shape_at (kintree_table s) 1) (\<lambda>K.
     bnd (world_transforms g (parent s) K Rv Jv) (\<lambda>G.
     bnd (rest_pose_correction G Jv) (\<lambda>G'.
     skinning s G' v_posed))))"

text \<open>Line 112: the translation is added to every vertex.\<close>

definition translate :: "'z SMPLModel_scheme \<Rightarrow> real ndarray \<Rightarrow> real ndarray result" where
  "translate s v = bnd (reshape (trans s) [1, 3]) (\<lambda>t. bop (+) v t)"

text \<open>
  \<^verbatim>\<open>update\<close> returns the object as the call leaves it, also when it raises:
  \<^verbatim>\<open>self.J\<close> is assigned at line 80, \<^verbatim>\<open>self.R\<close> at line 83 and \<^verbatim>\<open>self.verts\<close> at
  line 112, and an exception after an assignment does not undo it.
\<close>

definition update :: "(nat \<Rightarrow> real) \<Rightarrow> 'z SMPLModel_scheme \<Rightarrow> unit result \<times> 'z SMPLModel_scheme"
  where
  "update g s =
     (case shape_blend s of
        Inl e \<Rightarrow> (Inl e, s)
      | Inr v_shaped \<Rightarrow>
          (case dot (J_regressor s) v_shaped of
             Inl e \<Rightarrow> (Inl e, s)
           | Inr Jv \<Rightarrow>
               let s1 = s\<lparr>J := Some Jv\<rparr> in
               (case joint_rotations s1 of
                  Inl e \<Rightarrow> (Inl e, s1)
                | Inr Rv \<Rightarrow>
                    let s2 = s1\<lparr>R := Some Rv\<rparr> in
                    (case bnd (skinned_vertices g s2 v_shaped Jv Rv) (translate s2) of
                       Inl e \<Rightarrow> (Inl e, s2)
                     | Inr v \<Rightarrow> (Inr (), s2\<lparr>verts := Some v\<rparr>)))))"

subsection \<open>\<^verbatim>\<open>set_params\<close>\<close>

text \<open>
  Lines 64 to 71. An argument left out is \<open>None\<close>. The three assignments come before
  the call of \<^verbatim>\<open>update\<close>; the value returned is \<^verbatim>\<open>self.verts\<close>.
\<close>

definition set_params ::
  "(nat \<Rightarrow> real) \<Rightarrow> 'z SMPLModel_scheme \<Rightarrow> real ndarray option \<Rightarrow> real ndarray option
     \<Rightarrow> real ndarray option \<Rightarrow> real ndarray option result \<times> 'z SMPLModel_scheme" where
  "set_params g s pose_arg beta_arg trans_arg =
     (let s1 = (case pose_arg of None \<Rightarrow> s | Some p \<Rightarrow> s\<lparr>pose := p\<rparr>);
          s2 = (case beta_arg of None \<Rightarrow> s1 | Some b \<Rightarrow> s1\<lparr>beta := b\<rparr>);
          s3 = (case trans_arg of None \<Rightarrow> s2 | Some t \<Rightarrow> s2\<lparr>trans := t\<rparr>)
      in case update g s3 of
           (Inl e, s') \<Rightarrow> (Inl e, s')
         | (Inr u, s') \<Rightarrow> (Inr (verts s'), s'))"

subsection \<open>\<^verbatim>\<open>__init__\<close> (source lines 6-46)\<close>

text \<open>
  The unpickled archive is the record \<open>params\<close> below; reading the file is not
  modelled. \<^verbatim>\<open>kintree_table[r, i]\<close> is used as a dictionary key: it must be a single
  number, so the table needs exactly two axes and the position must exist.
\<close>

definition kintree_key :: "int ndarray \<Rightarrow> nat \<Rightarrow> nat \<Rightarrow> int result" where
  "kintree_key kt r i =
     (if ndim kt < 2 then Inl IndexError
      else if \<not> (r < shape kt ! 0 \<and> i < shape kt ! 1) then Inl IndexError
      else if 2 < ndim kt then Inl TypeError
      else Inr (get kt [r, i]))"

text \<open>
  The two dictionary comprehensions of lines 26 to 32. \<^verbatim>\<open>id_to_col\<close> maps the joint id
  in row 1 of the table to its column (a later column replaces an earlier one with the
  same id); \<^verbatim>\<open>parent\<close> maps every column from 1 on to the column of the id in row 0,
  and a missing id is a KeyError.
\<close>

fun id_to_col_loop :: "int ndarray \<Rightarrow> nat list \<Rightarrow> (int \<rightharpoonup> nat) \<Rightarrow> (int \<rightharpoonup> nat) result" where
  "id_to_col_loop kt [] m = Inr m"
| "id_to_col_loop kt (i # rest) m =
     bnd (kintree_key kt 1 i) (\<lambda>k. id_to_col_loop kt rest (m(k \<mapsto> i)))"

fun parent_loop ::
  "int ndarray \<Rightarrow> (int \<rightharpoonup> nat) \<Rightarrow> nat list \<Rightarrow> (nat \<rightharpoonup> nat) \<Rightarrow> (nat \<rightharpoonup> nat) result" where
  "parent_loop kt idc [] m = Inr m"
| "parent_loop kt idc (i # rest) m =
     bnd (kintree_key kt 0 i) (\<lambda>k.
       case idc k of None \<Rightarrow> Inl KeyError | Some c \<Rightarrow> parent_loop kt idc rest (m(i \<mapsto> c)))"

text \<open>The entries of the archive that the constructor reads.\<close>

record params =
  prm_J_regressor :: "real ndarray"
  prm_weights :: "real ndarray"
  prm_posedirs :: "real ndarray"
  prm_v_template :: "real ndarray"
  prm_shapedirs :: "real ndarray"
  prm_f :: "int ndarray"
  prm_kintree_table :: "int ndarray"

text \<open>
  The constructor: the rig, the tables, the expected shapes as constants, zero
  parameters, and a first \<^verbatim>\<open>update\<close>. When \<^verbatim>\<open>update\<close> raises, no object is returned.
\<close>

definition SMPLModel_init :: "(nat \<Rightarrow> real) \<Rightarrow> params \<Rightarrow> SMPLModel result" where
  "SMPLModel_init g prm =
     bnd (shape_at (prm_kintree_table prm) 1) (\<lambda>K.
     bnd (id_to_col_loop (prm_kintree_table prm) [0..<K] Map.empty) (\<lambda>idc.
     bnd (parent_loop (prm_kintree_table prm) idc [1..<K] Map.empty) (\<lambda>par.
     case update g
            \<lparr>J_regressor = prm_J_regressor prm, weights = prm_weights prm,
             posedirs = prm_posedirs prm, v_template = prm_v_template prm,
             shapedirs = prm_shapedirs prm, faces = prm_f prm,
             kintree_table = prm_kintree_table prm, parent = par,
             pose_shape = [24, 3], beta_shape = [10], trans_shape = [3],
             pose = zeros [24, 3], beta = zeros [10], trans = zeros [3],
             verts = None, J = None, R = None\<rparr> of
       (Inl e, s') \<Rightarrow> Inl e
     | (Inr u, s') \<Rightarrow> Inr s')))"

subsection \<open>Rigs\<close>

text \<open>
  A rig of 24 joints in a chain (the parent of joint \<open>i\<close> is joint \<open>i - 1\<close>) with one
  vertex, and the parent table the constructor builds for it.
\<close>

definition rig24_kintree :: "int ndarray" where
  "rig24_kintree = NDArray [2, 24]
     [- 1, 0, 1, 2, 3, 4, 5, 6, 7, 8, 9, 10, 11, 12, 13, 14, 15, 16, 17, 18, 19, 20, 21, 22,
      0, 1, 2, 3, 4, 5, 6, 7, 8, 9, 10, 11, 12, 13, 14, 15, 16, 17, 18, 19, 20, 21, 22, 23]"

definition chain24 :: "nat \<rightharpoonup> nat" where
  "chain24 = [1 \<mapsto> 0, 2 \<mapsto> 1, 3 \<mapsto> 2, 4 \<mapsto> 3, 5 \<mapsto> 4, 6 \<mapsto> 5, 7 \<mapsto> 6, 8 \<mapsto> 7, 9 \<mapsto> 8,
     10 \<mapsto> 9, 11 \<mapsto> 10, 12 \<mapsto> 11, 13 \<mapsto> 12, 14 \<mapsto> 13, 15 \<mapsto> 14, 16 \<mapsto> 15, 17 \<mapsto> 16,
     18 \<mapsto> 17, 19 \<mapsto> 18, 20 \<mapsto> 19, 21 \<mapsto> 20, 22 \<mapsto> 21, 23 \<mapsto> 22]"

text \<open>
  A rig of \<open>K\<close> joints and \<open>N\<close> vertices whose arrays have the dimensions the
  specification gives them, with a parent inside the rig for every joint but the root.
\<close>

definition rig_dims :: "'z SMPLModel_scheme \<Rightarrow> nat \<Rightarrow> nat \<Rightarrow> bool" where
  "rig_dims s K N \<longleftrightarrow>
     shape (v_template s) = [N, 3] \<and> shape (shapedirs s) = [N, 3, 10] \<and>
     shape (posedirs s) = [N, 3, 9 * (K - 1)] \<and> shape (J_regressor s) = [K, N] \<and>
     shape (weights s) = [N, K] \<and> shape (kintree_table s) = [2, K] \<and>
     (\<forall>i\<in>{1..<K}. \<exists>p<K. parent s i = Some p)"

text \<open>A content of uninitialised memory: all zero.\<close>

definition g0 :: "nat \<Rightarrow> real" where
  "g0 = (\<lambda>k. 0)"

definition rig24_params :: params where
  "rig24_params =
     \<lparr>prm_J_regressor = zeros [24, 1],
      prm_weights = tabulate [1, 24] (\<lambda>idx. if idx ! 1 = 0 then 1 else 0),
      prm_posedirs = zeros [1, 3, 207],
      prm_v_template = zeros [1, 3],
      prm_shapedirs = zeros [1, 3, 10],
      prm_f = NDArray [0, 3] [],
      prm_kintree_table = rig24_kintree\<rparr>"

text \<open>The object the constructor returns for the chain of 24 joints.\<close>

definition the_model :: SMPLModel where
  "the_model = projr (SMPLModel_init g0 rig24_params)"

text \<open>
  The two-joint rig of the specification's scenario: joints at (0, 0, 0) and (0, 1, 0),
  one vertex at each joint, each bound to its joint with weight 1. \<open>rig2_object\<close> is
  the object as the constructor has assigned it before its call of \<^verbatim>\<open>update\<close>;
  \<open>rig2_pose\<close> turns joint 1 by a quarter turn about the third axis.
\<close>

definition rig2_params :: params where
  "rig2_params =
     \<lparr>prm_J_regressor = eye 2,
      prm_weights = eye 2,
      prm_posedirs = zeros [2, 3, 9],
      prm_v_template = NDArray [2, 3] [0, 0, 0, 0, 1, 0],
      prm_shapedirs = zeros [2, 3, 10],
      prm_f = NDArray [0, 3] [],
      prm_kintree_table = NDArray [2, 2] [- 1, 0, 0, 1]\<rparr>"

definition rig2_object :: SMPLModel where
  "rig2_object =
     \<lparr>J_regressor = prm_J_regressor rig2_params, weights = prm_weights rig2_params,
      posedirs = prm_posedirs rig2_params, v_template = prm_v_template rig2_params,
      shapedirs = prm_shapedirs rig2_params, faces = prm_f rig2_params,
      kintree_table = prm_kintree_table rig2_params, parent = [1 \<mapsto> 0],
      pose_shape = [24, 3], beta_shape = [10], trans_shape = [3],
      pose = zeros [24, 3], beta = zeros [10], trans = zeros [3],
      verts = None, J = None, R = None\<rparr>"

definition rig2_pose :: "real ndarray" where
  "rig2_pose = NDArray [2, 3] [0, 0, 0, 0, 0, pi / 2]"

subsection \<open>Order of the joints\<close>

text \<open>
  The topological order that the world-transform loop relies on: every joint after the
  root has a parent with a smaller index. \<open>rows_agree n ds G1 G2\<close>: the first \<open>n\<close> rows
  of two arrays are equal.
\<close>

definition parents_first :: "(nat \<rightharpoonup> nat) \<Rightarrow> nat \<Rightarrow> bool" where
  "parents_first par K \<longleftrightarrow> (\<forall>i\<in>{1..<K}. \<exists>p<i. par i = Some p)"

definition rows_agree :: "nat \<Rightarrow> nat list \<Rightarrow> real ndarray \<Rightarrow> real ndarray \<Rightarrow> bool" where
  "rows_agree n ds G1 G2 \<longleftrightarrow>
     (\<forall>j<n. \<forall>idx. valid_idx ds idx \<longrightarrow> get G1 (j # idx) = get G2 (j # idx))"

text \<open>Two objects with the same rig, and the number of joints of an object (line 93).\<close>

definition same_rig :: "'z SMPLModel_scheme \<Rightarrow> 'y SMPLModel_scheme \<Rightarrow> bool" where
  "same_rig s1 s2 \<longleftrightarrow>
     J_regressor s1 = J_regressor s2 \<and> weights s1 = weights s2 \<and> posedirs s1 = posedirs s2 \<and>
     v_template s1 = v_template s2 \<and> shapedirs s1 = shapedirs s2 \<and>
     kintree_table s1 = kintree_table s2 \<and> parent s1 = parent s2"

definition joint_count :: "'z SMPLModel_scheme \<Rightarrow> nat" where
  "joint_count s = shape (kintree_table s) ! 1"

text \<open>
  The recurrence of the world transforms: \<open>G[0]\<close> is the local transform of the root
  and \<open>G[i] = G[parent[i]] \<cdot> local(i)\<close> for every other joint, read on the finished
  array \<open>G\<close>.
\<close>

definition recurrence_rhs ::
  "(nat \<rightharpoonup> nat) \<Rightarrow> real ndarray \<Rightarrow> real ndarray \<Rightarrow> real ndarray \<Rightarrow> nat \<Rightarrow> real ndarray result"
  where
  "recurrence_rhs par Rv Jv G i =
     (case par i of
        None \<Rightarrow> Inl KeyError
      | Some p \<Rightarrow> bnd (getitem G [At p]) (\<lambda>Gp. bnd (local_child Rv Jv i p) (dot Gp)))"

definition satisfies_recurrence ::
  "(nat \<rightharpoonup> nat) \<Rightarrow> nat \<Rightarrow> real ndarray \<Rightarrow> real ndarray \<Rightarrow> real ndarray \<Rightarrow> bool" where
  "satisfies_recurrence par K Rv Jv G \<longleftrightarrow>
     getitem G [At 0] = local_root Rv Jv \<and>
     (\<forall>i\<in>{1..<K}. getitem G [At i] = recurrence_rhs par Rv Jv G i)"

text \<open>
  A valid tree rooted at joint 0: every other joint has a parent in the rig, and
  following parents from any joint reaches joint 0 within \<open>K\<close> steps.
\<close>

fun reaches_root :: "(nat \<rightharpoonup> nat) \<Rightarrow> nat \<Rightarrow> nat \<Rightarrow> bool" where
  "reaches_root par 0 i = (i = 0)"
| "reaches_root par (Suc n) i =
     (i = 0 \<or> (case par i of None \<Rightarrow> False | Some p \<Rightarrow> reaches_root par n p))"

definition valid_tree :: "(nat \<rightharpoonup> nat) \<Rightarrow> nat \<Rightarrow> bool" where
  "valid_tree par K \<longleftrightarrow>
     (\<forall>i\<in>{1..<K}. \<exists>p<K. par i = Some p) \<and> (\<forall>i<K. reaches_root par K i)"

text \<open>
  A second content of uninitialised memory, an array of three identity rotations, and two
  parent tables on three joints: \<open>tree3\<close> lists joint 1 before its parent 2, \<open>chain3\<close>
  is in order.
\<close>

definition g35 :: "nat \<Rightarrow> real" where
  "g35 = (\<lambda>k. if k = 35 then 1 else 0)"

definition rot3 :: "real ndarray" where
  "rot3 = tabulate [3, 3, 3] (\<lambda>idx. if idx ! 1 = idx ! 2 then 1 else 0)"

definition tree3 :: "nat \<rightharpoonup> nat" where
  "tree3 = [1 \<mapsto> 2, 2 \<mapsto> 0]"

definition chain3 :: "nat \<rightharpoonup> nat" where
  "chain3 = [1 \<mapsto> 0, 2 \<mapsto> 1]"

text \<open>
  A valid tree on 24 joints that is not in parent-before-child order: the parent of
  joint 1 is joint 2, every other joint hangs from the root. Its one vertex is bound to
  joint 1.
\<close>

definition hang24_kintree :: "int ndarray" where
  "hang24_kintree = NDArray [2, 24]
     [- 1, 2, 0, 0, 0, 0, 0, 0, 0, 0, 0, 0, 0, 0, 0, 0, 0, 0, 0, 0, 0, 0, 0, 0,
      0, 1, 2, 3, 4, 5, 6, 7, 8, 9, 10, 11, 12, 13, 14, 15, 16, 17, 18, 19, 20, 21, 22, 23]"

definition hang24 :: "nat \<rightharpoonup> nat" where
  "hang24 = [1 \<mapsto> 2, 2 \<mapsto> 0, 3 \<mapsto> 0, 4 \<mapsto> 0, 5 \<mapsto> 0, 6 \<mapsto> 0, 7 \<mapsto> 0, 8 \<mapsto> 0, 9 \<mapsto> 0,
     10 \<mapsto> 0, 11 \<mapsto> 0, 12 \<mapsto> 0, 13 \<mapsto> 0, 14 \<mapsto> 0, 15 \<mapsto> 0, 16 \<mapsto> 0, 17 \<mapsto> 0,
     18 \<mapsto> 0, 19 \<mapsto> 0, 20 \<mapsto> 0, 21 \<mapsto> 0, 22 \<mapsto> 0, 23 \<mapsto> 0]"

definition hang24_params :: params where
  "hang24_params =
     \<lparr>prm_J_regressor = zeros [24, 1],
      prm_weights = tabulate [1, 24] (\<lambda>idx. if idx ! 1 = 1 then 1 else 0),
      prm_posedirs = zeros [1, 3, 207],
      prm_v_template = zeros [1, 3],
      prm_shapedirs = zeros [1, 3, 10],
      prm_f = NDArray [0, 3] [],
      prm_kintree_table = hang24_kintree\<rparr>"

definition hang24_model :: SMPLModel where
  "hang24_model = projr (SMPLModel_init g0 hang24_params)"

subsection \<open>Export: \<^verbatim>\<open>save_to_obj\<close> (source lines 171-182)\<close>

















subsection \<open>Rodrigues' formula as the specification states it\<close>

text \<open>
  For vector \<open>b\<close> of a batch \<open>r\<close> of shape [B, 1, 3]: the Euclidean norm, the angle
  \<open>theta = max(norm, eps)\<close>, the axis \<open>r / theta\<close>, the cross-product matrix of a
  vector \<open>u\<close>, and the entry \<open>(i, j)\<close> of
  \<open>cos(theta) I + (1 - cos(theta)) u u\<^sup>T + sin(theta) [u]\<^sub>\<times>\<close>.
\<close>

definition axis_norm :: "real ndarray \<Rightarrow> nat \<Rightarrow> real" where
  "axis_norm r b = sqrt ((get r [b, 0, 0])\<^sup>2 + (get r [b, 0, 1])\<^sup>2 + (get r [b, 0, 2])\<^sup>2)"

definition clamped_theta :: "real ndarray \<Rightarrow> nat \<Rightarrow> real" where
  "clamped_theta r b = max (axis_norm r b) float64_eps"

definition unit_axis :: "real ndarray \<Rightarrow> nat \<Rightarrow> nat \<Rightarrow> real" where
  "unit_axis r b k = get r [b, 0, k] / clamped_theta r b"

definition cross_matrix :: "(nat \<Rightarrow> real) \<Rightarrow> nat \<Rightarrow> nat \<Rightarrow> real" where
  "cross_matrix u i j = [[0, - u 2, u 1], [u 2, 0, - u 0], [- u 1, u 0, 0]] ! i ! j"

definition rodrigues_formula :: "real ndarray \<Rightarrow> nat \<Rightarrow> nat \<Rightarrow> nat \<Rightarrow> real" where
  "rodrigues_formula r b i j =
     cos (clamped_theta r b) * (if i = j then 1 else 0) +
     (1 - cos (clamped_theta r b)) * (unit_axis r b i * unit_axis r b j) +
     sin (clamped_theta r b) * cross_matrix (unit_axis r b) i j"

text \<open>A batch of two vectors: the zero vector, and a turn of 2 radians about the third axis.\<close>

definition two_vectors :: "real ndarray" where
  "two_vectors = NDArray [2, 1, 3] [0, 0, 0, 0, 0, 2]"

section \<open>Properties of the model\<close>

subsection \<open>Results, indices and arrays\<close>

lemma bnd_Inr [simp]: "bnd (Inr v) f = f v"
  by (simp add: bnd_def)

lemma bnd_Inl [simp]: "bnd (Inl e) f = Inl e"
  by (simp add: bnd_def)

lemma bnd_eq_Inr: "bnd r f = Inr y \<longleftrightarrow> (\<exists>v. r = Inr v \<and> f v = Inr y)"
  by (cases r) simp_all

lemma ravel_lt: "valid_idx sh idx \<Longrightarrow> ravel sh idx < prod_list sh"
  unfolding valid_idx_def
proof (induction idx sh rule: list_all2_induct)
  case Nil
  then show ?case by simp
next
  case (Cons i js d ds)
  have "i * prod_list ds + ravel ds js < i * prod_list ds + prod_list ds"
    using Cons by simp
  also have "\<dots> = (Suc i) * prod_list ds" by simp
  also have "\<dots> \<le> d * prod_list ds" using Cons(1) by (intro mult_le_mono1) simp
  finally show ?case by simp
qed

lemma unravel_ravel: "valid_idx sh idx \<Longrightarrow> unravel sh (ravel sh idx) = idx"
  unfolding valid_idx_def
proof (induction idx sh rule: list_all2_induct)
  case Nil
  then show ?case by simp
next
  case (Cons i js d ds)
  have lt: "ravel ds js < prod_list ds"
    using Cons ravel_lt[of ds js] by (simp add: valid_idx_def)
  then show ?case using Cons by simp
qed

lemma valid_unravel: "k < prod_list sh \<Longrightarrow> valid_idx sh (unravel sh k)"
  unfolding valid_idx_def
proof (induction sh arbitrary: k)
  case Nil
  then show ?case by simp
next
  case (Cons d ds)
  have pos: "0 < prod_list ds" using Cons.prems by (cases "prod_list ds = 0") auto
  have "k div prod_list ds < d" using Cons.prems pos
    by (simp add: less_mult_imp_div_less mult.commute)
  moreover have "k mod prod_list ds < prod_list ds" using pos by simp
  ultimately show ?case using Cons.IH by simp
qed

lemma ravel_unravel: "k < prod_list sh \<Longrightarrow> ravel sh (unravel sh k) = k"
proof (induction sh arbitrary: k)
  case Nil
  then show ?case by simp
next
  case (Cons d ds)
  have pos: "0 < prod_list ds" using Cons.prems by (cases "prod_list ds = 0") auto
  then show ?case using Cons.IH[of "k mod prod_list ds"] by simp
qed

lemma shape_tabulate [simp]: "shape (tabulate sh f) = sh"
  by (simp add: tabulate_def)

lemma wf_tabulate [simp]: "wf_nd (tabulate sh f)"
  by (simp add: tabulate_def wf_nd_def)

lemma get_tabulate: "valid_idx sh idx \<Longrightarrow> get (tabulate sh f) idx = f idx"
  using ravel_lt[of sh idx] unravel_ravel[of sh idx]
  by (simp add: get_def tabulate_def)

lemma tabulate_cong: "(\<And>idx. valid_idx sh idx \<Longrightarrow> f idx = h idx) \<Longrightarrow> tabulate sh f = tabulate sh h"
  by (simp add: tabulate_def valid_unravel)

lemma tabulate_get: "wf_nd a \<Longrightarrow> tabulate (shape a) (get a) = a"
proof -
  assume wf: "wf_nd a"
  have "map (\<lambda>k. flat a ! ravel (shape a) (unravel (shape a) k)) [0..<prod_list (shape a)]
        = map (\<lambda>k. flat a ! k) [0..<prod_list (shape a)]"
    by (simp add: ravel_unravel)
  also have "\<dots> = flat a" using wf map_nth[of "flat a"] by (simp add: wf_nd_def)
  finally show ?thesis by (cases a) (simp add: tabulate_def get_def)
qed

lemma nd_ext:
  assumes "wf_nd a" "wf_nd b" "shape a = shape b"
    and "\<And>idx. valid_idx (shape a) idx \<Longrightarrow> get a idx = get b idx"
  shows "a = b"
proof -
  have "tabulate (shape a) (get a) = tabulate (shape a) (get b)"
    using assms(4) by (rule tabulate_cong)
  moreover have "tabulate (shape a) (get a) = a" using assms(1) by (rule tabulate_get)
  moreover have "tabulate (shape a) (get b) = b" using assms(2,3) tabulate_get[of b] by simp
  ultimately show ?thesis by simp
qed

lemma shape_blend_upd [simp]:
  "shape_blend (s\<lparr>J := x\<rparr>) = shape_blend s"
  "shape_blend (s\<lparr>R := y\<rparr>) = shape_blend s"
  "shape_blend (s\<lparr>verts := z\<rparr>) = shape_blend s"
  "shape_blend (s\<lparr>trans := t\<rparr>) = shape_blend s"
  by (simp_all add: shape_blend_def)

lemma joint_rotations_upd [simp]:
  "joint_rotations (s\<lparr>J := x\<rparr>) = joint_rotations s"
  "joint_rotations (s\<lparr>R := y\<rparr>) = joint_rotations s"
  "joint_rotations (s\<lparr>verts := z\<rparr>) = joint_rotations s"
  "joint_rotations (s\<lparr>trans := t\<rparr>) = joint_rotations s"
  by (simp_all add: joint_rotations_def)

lemma pose_blend_upd [simp]:
  "pose_blend (s\<lparr>J := x\<rparr>) = pose_blend s"
  "pose_blend (s\<lparr>R := y\<rparr>) = pose_blend s"
  "pose_blend (s\<lparr>verts := z\<rparr>) = pose_blend s"
  "pose_blend (s\<lparr>trans := t\<rparr>) = pose_blend s"
  by (simp_all add: pose_blend_def fun_eq_iff)

lemma skinning_upd [simp]:
  "skinning (s\<lparr>J := x\<rparr>) = skinning s"
  "skinning (s\<lparr>R := y\<rparr>) = skinning s"
  "skinning (s\<lparr>verts := z\<rparr>) = skinning s"
  "skinning (s\<lparr>trans := t\<rparr>) = skinning s"
  by (simp_all add: skinning_def fun_eq_iff)

lemma skinned_vertices_upd [simp]:
  "skinned_vertices g (s\<lparr>J := x\<rparr>) = skinned_vertices g s"
  "skinned_vertices g (s\<lparr>R := y\<rparr>) = skinned_vertices g s"
  "skinned_vertices g (s\<lparr>verts := z\<rparr>) = skinned_vertices g s"
  "skinned_vertices g (s\<lparr>trans := t\<rparr>) = skinned_vertices g s"
  by (simp_all add: skinned_vertices_def fun_eq_iff)

lemma translate_upd [simp]:
  "translate (s\<lparr>J := x\<rparr>) = translate s"
  "translate (s\<lparr>R := y\<rparr>) = translate s"
  "translate (s\<lparr>verts := z\<rparr>) = translate s"
  by (simp_all add: translate_def fun_eq_iff)

text \<open>What update leaves alone, whatever its outcome.\<close>

lemma update_frame:
  assumes "update g s = (r, s')"
  shows "s' = s\<lparr>J := J s', R := R s', verts := verts s'\<rparr>"
  using assms
  by (auto simp: update_def Let_def split: sum.splits)

lemma update_fails_verts:
  assumes "update g s = (Inl e, s')"
  shows "verts s' = verts s"
  using assms
  by (auto simp: update_def Let_def split: sum.splits)

lemma update_idem:
  assumes "update g s = (Inr u, s')"
  shows "update g s' = (Inr (), s')"
  using assms
  by (auto simp: update_def Let_def split: sum.splits)

lemma update_succeeds_verts:
  assumes "update g s = (Inr u, s')"
  shows "\<exists>v. verts s' = Some v"
  using assms
  by (auto simp: update_def Let_def split: sum.splits)

lemmas np_defs =
  ndim_def nd_size_def shape_at_def bop_def bshape_def dot_def matmul_def tensordot_1_0_def
  reshape_def getitem_def setitem0_def concatenate_def hstack_def vstack_def dstack_def
  atleast_1d_def atleast_2d_def atleast_3d_def broadcast_to_def expand_dims0_def eye_def
  zeros_def ones_def scalar_def map_nd_def ravel_nd_def transpose_nd_def norm_axes12_def
  np_empty_def with_zeros_def pack_def Let_def

lemma set3: "{0, 2, Suc 0} = {..<3::nat}"
  by auto

lemma rodrigues_shape:
  assumes "shape r = [B, 1, 3]"
  shows "\<exists>Rv. rodrigues r = Inr Rv \<and> shape Rv = [B, 3, 3]"
proof -
  obtain theta where th: "rodrigues_theta r = Inr theta" "shape theta = [B, 1, 1]"
    using assms by (simp add: rodrigues_theta_def np_defs)
  obtain r_hat where rh: "bop (/) r theta = Inr r_hat" "shape r_hat = [B, 1, 3]"
    using assms th(2) by (simp add: np_defs)
  obtain r02 where r02: "getitem r_hat [Slice 0 None, At 0, At 2] = Inr r02" "shape r02 = [B]"
    using rh(2) by (simp add: np_defs)
  obtain r01 where r01: "getitem r_hat [Slice 0 None, At 0, At 1] = Inr r01" "shape r01 = [B]"
    using rh(2) by (simp add: np_defs)
  obtain r00 where r00: "getitem r_hat [Slice 0 None, At 0, At 0] = Inr r00" "shape r00 = [B]"
    using rh(2) by (simp add: np_defs)
  obtain st where st: "dstack [zeros [B], map_nd uminus r02, r01, r02, zeros [B],
      map_nd uminus r00, map_nd uminus r01, r00, zeros [B]] = Inr st" "shape st = [1, B, 9]"
    using r02(2) r01(2) r00(2) by (simp add: np_defs)
  obtain m where m: "reshape st [- 1, 3, 3] = Inr m" "shape m = [B, 3, 3]"
    using st(2) by (simp add: np_defs)
  obtain i_cube where ic: "broadcast_to (expand_dims0 (eye 3)) [int B, 3, 3] = Inr i_cube"
      "shape i_cube = [B, 3, 3]"
    by (simp add: np_defs)
  obtain A where A: "transpose_nd r_hat [0, 2, 1] = Inr A" "shape A = [B, 3, 1]"
    using rh(2) by (simp add: np_defs set3)
  obtain dt where dt: "matmul A r_hat = Inr dt" "shape dt = [B, 3, 3]"
    using rh(2) A(2) by (simp add: np_defs)
  obtain t1 where t1: "bop (*) (map_nd cos theta) i_cube = Inr t1" "shape t1 = [B, 3, 3]"
    using th(2) ic(2) by (simp add: np_defs)
  obtain omc where omc: "bop (-) (scalar 1) (map_nd cos theta) = Inr omc" "shape omc = [B, 1, 1]"
    using th(2) by (simp add: np_defs)
  obtain t2 where t2: "bop (*) omc dt = Inr t2" "shape t2 = [B, 3, 3]"
    using omc(2) dt(2) by (simp add: np_defs)
  obtain t12 where t12: "bop (+) t1 t2 = Inr t12" "shape t12 = [B, 3, 3]"
    using t1(2) t2(2) by (simp add: np_defs)
  obtain t3 where t3: "bop (*) (map_nd sin theta) m = Inr t3" "shape t3 = [B, 3, 3]"
    using th(2) m(2) by (simp add: np_defs)
  obtain Rv where Rv: "bop (+) t12 t3 = Inr Rv" "shape Rv = [B, 3, 3]"
    using t12(2) t3(2) by (simp add: np_defs)
  have n: "shape_at theta 0 = Inr B"
    using th(2) by (simp add: np_defs)
  show ?thesis
    by (simp only: rodrigues_def Let_def th rh n r02 r01 r00 st m ic A dt t1 omc t2 t12 t3 Rv
        bnd_Inr sum.inject simp_thms ex_simps)
qed

lemma shape_blend_ok:
  assumes "shape (shapedirs s) = [N, 3, 10]" "shape (v_template s) = [N, 3]" "shape (beta s) = [10]"
  shows "\<exists>x. shape_blend s = Inr x \<and> shape x = [N, 3]"
  using assms by (simp add: shape_blend_def np_defs)

lemma rest_joints_ok:
  assumes "shape Jr = [K, N]" "shape x = [N, 3]"
  shows "\<exists>Jv. dot Jr x = Inr Jv \<and> shape Jv = [K, 3]"
  using assms by (simp add: np_defs)

lemma joint_rotations_ok:
  assumes "nd_size (pose s) = 3 * B"
  shows "\<exists>Rv. joint_rotations s = Inr Rv \<and> shape Rv = [B, 3, 3]"
proof -
  obtain c where c: "reshape (pose s) [- 1, 1, 3] = Inr c" "shape c = [B, 1, 3]"
    using assms by (simp add: reshape_def)
  show ?thesis using rodrigues_shape[OF c(2)] c(1) by (simp add: joint_rotations_def)
qed

lemma pose_blend_ok:
  assumes "shape Rv = [24, 3, 3]" "shape (posedirs s) = [N, 3, 207]" "shape x = [N, 3]"
  shows "\<exists>vp. pose_blend s x Rv = Inr vp \<and> shape vp = [N, 3]"
proof -
  have n: "shape_at Rv 0 = Inr 24" using assms(1) by (simp add: np_defs)
  obtain ic where ic: "broadcast_to (expand_dims0 (eye 3)) [int 24 - 1, 3, 3] = Inr ic"
      "shape ic = [23, 3, 3]"
    by (simp add: np_defs)
  obtain R1 where R1: "getitem Rv [Slice 1 None] = Inr R1" "shape R1 = [23, 3, 3]"
    using assms(1) by (simp add: np_defs)
  obtain d where d: "bop (-) R1 ic = Inr d" "shape d = [23, 3, 3]"
    using R1(2) ic(2) by (simp add: np_defs)
  obtain pd where pd: "dot (posedirs s) (ravel_nd d) = Inr pd" "shape pd = [N, 3]"
    using d(2) assms(2) by (simp add: np_defs)
  obtain vp where vp: "bop (+) x pd = Inr vp" "shape vp = [N, 3]"
    using pd(2) assms(3) by (simp add: np_defs)
  show ?thesis
    by (simp only: pose_blend_def Let_def n ic R1 d pd vp bnd_Inr sum.inject simp_thms ex_simps)
qed

lemma with_zeros_ok:
  assumes "shape x = [3, 4]"
  shows "\<exists>y. with_zeros x = Inr y \<and> shape y = [4, 4]"
  using assms by (simp add: np_defs)

lemma local_root_ok:
  assumes "shape Rv = [B, 3, 3]" "shape Jv = [K, 3]" "0 < B" "0 < K"
  shows "\<exists>L. local_root Rv Jv = Inr L \<and> shape L = [4, 4]"
proof -
  obtain R0 where R0: "getitem Rv [At 0] = Inr R0" "shape R0 = [3, 3]"
    using assms by (simp add: np_defs)
  obtain J0 where J0: "getitem Jv [At 0, Slice 0 None] = Inr J0" "shape J0 = [3]"
    using assms by (simp add: np_defs)
  obtain t where t: "reshape J0 [3, 1] = Inr t" "shape t = [3, 1]"
    using J0(2) by (simp add: np_defs)
  obtain h where h: "hstack [R0, t] = Inr h" "shape h = [3, 4]"
    using R0(2) t(2) by (simp add: np_defs)
  show ?thesis using with_zeros_ok[OF h(2)]
    by (simp only: local_root_def R0 J0 t h bnd_Inr)
qed

lemma local_child_ok:
  assumes "shape Rv = [B, 3, 3]" "shape Jv = [K, 3]" "i < B" "i < K" "p < K"
  shows "\<exists>L. local_child Rv Jv i p = Inr L \<and> shape L = [4, 4]"
proof -
  obtain Ri where Ri: "getitem Rv [At i] = Inr Ri" "shape Ri = [3, 3]"
    using assms by (simp add: np_defs)
  obtain Ji where Ji: "getitem Jv [At i, Slice 0 None] = Inr Ji" "shape Ji = [3]"
    using assms by (simp add: np_defs)
  obtain Jp where Jp: "getitem Jv [At p, Slice 0 None] = Inr Jp" "shape Jp = [3]"
    using assms by (simp add: np_defs)
  obtain d where d: "bop (-) Ji Jp = Inr d" "shape d = [3]"
    using Ji(2) Jp(2) by (simp add: np_defs)
  obtain t where t: "reshape d [3, 1] = Inr t" "shape t = [3, 1]"
    using d(2) by (simp add: np_defs)
  obtain h where h: "hstack [Ri, t] = Inr h" "shape h = [3, 4]"
    using Ri(2) t(2) by (simp add: np_defs)
  show ?thesis using with_zeros_ok[OF h(2)]
    by (simp only: local_child_def Ri Ji Jp d t h bnd_Inr)
qed

lemma kin_step_ok:
  assumes "shape G = [K, 4, 4]" "shape Rv = [B, 3, 3]" "shape Jv = [Kj, 3]"
    and "par i = Some p" "p < K" "i < K" "i < B" "i < Kj" "p < Kj"
  shows "\<exists>G'. kin_step par Rv Jv i G = Inr G' \<and> shape G' = [K, 4, 4]"
proof -
  obtain Gp where Gp: "getitem G [At p] = Inr Gp" "shape Gp = [4, 4]"
    using assms by (simp add: np_defs)
  obtain L where L: "local_child Rv Jv i p = Inr L" "shape L = [4, 4]"
    using local_child_ok[OF assms(2,3,7,8,9)] by blast
  obtain x where x: "dot Gp L = Inr x" "shape x = [4, 4]"
    using Gp(2) L(2) by (simp add: np_defs)
  obtain G' where G': "setitem0 G i x = Inr G'" "shape G' = [K, 4, 4]"
    using assms(1,6) x(2) by (simp add: np_defs)
  show ?thesis
    by (simp add: kin_step_def assms(4) Gp L x G')
qed

lemma kin_loop_ok:
  assumes "shape Rv = [B, 3, 3]" "shape Jv = [Kj, 3]"
    and "\<forall>i\<in>set js. i < K \<and> i < B \<and> i < Kj \<and> (\<exists>p. par i = Some p \<and> p < K \<and> p < Kj)"
    and "shape G = [K, 4, 4]"
  shows "\<exists>G'. kin_loop par Rv Jv js G = Inr G' \<and> shape G' = [K, 4, 4]"
  using assms(3,4)
proof (induction js arbitrary: G)
  case Nil
  then show ?case by simp
next
  case (Cons i js)
  then obtain p where p: "par i = Some p" "p < K" "p < Kj" "i < K" "i < B" "i < Kj"
    by auto
  obtain G1 where G1: "kin_step par Rv Jv i G = Inr G1" "shape G1 = [K, 4, 4]"
    using kin_step_ok[of G K Rv B Jv Kj par i p] Cons.prems(2) assms(1,2) p by blast
  show ?case using Cons.IH[OF _ G1(2)] Cons.prems(1) by (simp add: G1(1))
qed

lemma world_transforms_ok:
  assumes "shape Rv = [B, 3, 3]" "shape Jv = [Kj, 3]" "0 < K" "K \<le> B" "K \<le> Kj"
    and "\<forall>i\<in>{1..<K}. \<exists>p<K. par i = Some p"
  shows "\<exists>G. world_transforms g par K Rv Jv = Inr G \<and> shape G = [K, 4, 4]"
proof -
  obtain L0 where L0: "local_root Rv Jv = Inr L0" "shape L0 = [4, 4]"
    using local_root_ok[OF assms(1,2)] assms(3,4,5) by auto
  obtain G0 where G0: "setitem0 (np_empty g [K, 4, 4]) 0 L0 = Inr G0" "shape G0 = [K, 4, 4]"
    using L0(2) assms(3) by (simp add: np_defs)
  have "\<forall>i\<in>set [1..<K]. i < K \<and> i < B \<and> i < Kj \<and> (\<exists>p. par i = Some p \<and> p < K \<and> p < Kj)"
    using assms(4,5,6) by fastforce
  from kin_loop_ok[OF assms(1,2) this G0(2)] show ?thesis
    by (simp add: world_transforms_def Let_def L0 G0)
qed

lemma rest_pose_correction_ok:
  assumes "shape G = [24, 4, 4]" "shape Jv = [24, 3]"
  shows "\<exists>G'. rest_pose_correction G Jv = Inr G' \<and> shape G' = [24, 4, 4]"
proof -
  obtain h where h: "hstack [Jv, zeros [24, 1]] = Inr h" "shape h = [24, 4]"
    using assms(2) by (simp add: np_defs)
  obtain Jh where Jh: "reshape h [24, 4, 1] = Inr Jh" "shape Jh = [24, 4, 1]"
    using h(2) by (simp add: np_defs)
  obtain x where x: "matmul G Jh = Inr x" "shape x = [24, 4, 1]"
    using assms(1) Jh(2) by (simp add: np_defs)
  obtain P where P: "pack x = Inr P" "shape P = [24, 4, 4]"
    using x(2) by (simp add: np_defs)
  obtain G' where G': "bop (-) G P = Inr G'" "shape G' = [24, 4, 4]"
    using assms(1) P(2) by (simp add: np_defs)
  show ?thesis
    by (simp only: rest_pose_correction_def h Jh x P G' bnd_Inr sum.inject simp_thms ex_simps)
qed

lemma skinning_ok:
  assumes "shape (weights s) = [N, K]" "shape G = [K, 4, 4]" "shape vp = [N, 3]"
  shows "\<exists>v. skinning s G vp = Inr v \<and> shape v = [N, 3]"
proof -
  obtain T where T: "tensordot_1_0 (weights s) G = Inr T" "shape T = [N, 4, 4]"
    using assms by (simp add: np_defs)
  have n: "shape_at vp 0 = Inr N" using assms(3) by (simp add: np_defs)
  obtain h where h: "hstack [vp, ones [N, 1]] = Inr h" "shape h = [N, 4]"
    using assms(3) by (simp add: np_defs)
  obtain rh where rh: "reshape h [- 1, 4, 1] = Inr rh" "shape rh = [N, 4, 1]"
    using h(2) by (simp add: np_defs)
  obtain x where x: "matmul T rh = Inr x" "shape x = [N, 4, 1]"
    using T(2) rh(2) by (simp add: np_defs)
  obtain y where y: "reshape x [- 1, 4] = Inr y" "shape y = [N, 4]"
    using x(2) by (simp add: np_defs)
  obtain v where v: "getitem y [Slice 0 None, Slice 0 (Some 3)] = Inr v" "shape v = [N, 3]"
    using y(2) by (simp add: np_defs)
  show ?thesis
    by (simp only: skinning_def T n h rh x y v bnd_Inr sum.inject simp_thms ex_simps)
qed

lemma translate_ok:
  assumes "nd_size (trans s) = 3" "shape v = [N, 3]"
  shows "\<exists>w. translate s v = Inr w \<and> shape w = [N, 3]"
proof -
  obtain t where t: "reshape (trans s) [1, 3] = Inr t" "shape t = [1, 3]"
    using assms(1) by (simp add: np_defs)
  obtain w where w: "bop (+) v t = Inr w" "shape w = [N, 3]"
    using t(2) assms(2) by (simp add: np_defs)
  show ?thesis
    by (simp only: translate_def t w bnd_Inr sum.inject simp_thms ex_simps)
qed




lemma skinned_vertices_ok:
  assumes "rig_dims s 24 N" "shape x = [N, 3]" "shape Jv = [24, 3]" "shape Rv = [24, 3, 3]"
  shows "\<exists>v. skinned_vertices g s x Jv Rv = Inr v \<and> shape v = [N, 3]"
proof -
  obtain vp where vp: "pose_blend s x Rv = Inr vp" "shape vp = [N, 3]"
    using pose_blend_ok[OF assms(4) _ assms(2)] assms(1) by (auto simp: rig_dims_def)
  have K: "shape_at (kintree_table s) 1 = Inr 24"
    using assms(1) by (simp add: rig_dims_def np_defs)
  have par: "\<forall>i\<in>{1..<24}. \<exists>p<24. parent s i = Some p"
    using assms(1) by (simp add: rig_dims_def)
  obtain G where G: "world_transforms g (parent s) 24 Rv Jv = Inr G" "shape G = [24, 4, 4]"
    using world_transforms_ok[OF assms(4,3) _ _ _ par] by auto
  obtain G' where G': "rest_pose_correction G Jv = Inr G'" "shape G' = [24, 4, 4]"
    using rest_pose_correction_ok[OF G(2) assms(3)] by blast
  have w: "shape (weights s) = [N, 24]" using assms(1) by (simp add: rig_dims_def)
  from skinning_ok[OF w G'(2) vp(2)] show ?thesis
    by (simp only: skinned_vertices_def vp K G G' bnd_Inr)
qed

lemma update_ok:
  assumes "rig_dims s 24 N" "shape (beta s) = [10]" "nd_size (pose s) = 72" "nd_size (trans s) = 3"
  shows "\<exists>s' v. update g s = (Inr (), s') \<and> verts s' = Some v \<and> shape v = [N, 3]"
proof -
  obtain x where x: "shape_blend s = Inr x" "shape x = [N, 3]"
    using shape_blend_ok[of s N] assms(1,2) by (auto simp: rig_dims_def)
  obtain Jv where Jv: "dot (J_regressor s) x = Inr Jv" "shape Jv = [24, 3]"
    using rest_joints_ok[of "J_regressor s" 24 N x] assms(1) x(2) by (auto simp: rig_dims_def)
  obtain Rv where Rv: "joint_rotations s = Inr Rv" "shape Rv = [24, 3, 3]"
    using joint_rotations_ok[of s 24] assms(3) by auto
  obtain v where v: "skinned_vertices g s x Jv Rv = Inr v" "shape v = [N, 3]"
    using skinned_vertices_ok[OF assms(1) x(2) Jv(2) Rv(2)] by blast
  obtain w where w: "translate s v = Inr w" "shape w = [N, 3]"
    using translate_ok[OF assms(4) v(2)] by blast
  show ?thesis
    by (simp add: update_def Let_def x Jv Rv v w)
qed


lemma upt24: "[0..<24] = [0,1,2,3,4,5,6,7,8,9,10,11,12,13,14,15,16,17,18,19,20,21,22,23]"
  by (simp add: upt_rec)

lemma upt24': "[1..<24] = [1,2,3,4,5,6,7,8,9,10,11,12,13,14,15,16,17,18,19,20,21,22,23]"
  by (simp add: upt_rec)

lemma parents24:
  "bnd (id_to_col_loop rig24_kintree [0..<24] Map.empty)
       (\<lambda>idc. parent_loop rig24_kintree idc [1..<24] Map.empty) = Inr chain24"
  unfolding upt24 upt24'
  by (simp add: kintree_key_def rig24_kintree_def get_def ndim_def chain24_def)

lemma chain24_ok: "\<forall>i\<in>{1..<24}. \<exists>p<24. chain24 i = Some p"
proof -
  have "{1..<24::nat} = set [1..<24]" by simp
  then show ?thesis unfolding upt24' by (simp add: chain24_def)
qed

lemma init_rig24:
  "\<exists>s. SMPLModel_init g0 rig24_params = Inr s \<and> rig_dims s 24 1 \<and> pose s = zeros [24, 3] \<and>
       beta s = zeros [10] \<and> trans s = zeros [3] \<and> pose_shape s = [24, 3] \<and>
       parent s = chain24 \<and> kintree_table s = rig24_kintree"
proof -
  define pre :: SMPLModel where "pre =
     \<lparr>J_regressor = prm_J_regressor rig24_params, weights = prm_weights rig24_params,
      posedirs = prm_posedirs rig24_params, v_template = prm_v_template rig24_params,
      shapedirs = prm_shapedirs rig24_params, faces = prm_f rig24_params,
      kintree_table = prm_kintree_table rig24_params, parent = chain24,
      pose_shape = [24, 3], beta_shape = [10], trans_shape = [3],
      pose = zeros [24, 3], beta = zeros [10], trans = zeros [3],
      verts = None, J = None, R = None\<rparr>"
  have K: "shape_at (prm_kintree_table rig24_params) 1 = Inr 24"
    by (simp add: rig24_params_def rig24_kintree_def shape_at_def ndim_def)
  have dims: "rig_dims pre 24 1"
    using chain24_ok
    by (simp add: rig_dims_def pre_def rig24_params_def rig24_kintree_def zeros_def)
  have "shape (beta pre) = [10]" "nd_size (pose pre) = 72" "nd_size (trans pre) = 3"
    by (simp_all add: pre_def zeros_def nd_size_def)
  from update_ok[OF dims this] obtain s' where s': "update g0 pre = (Inr (), s')"
    by blast
  have fr: "s' = pre\<lparr>J := J s', R := R s', verts := verts s'\<rparr>"
    using update_frame[OF s'] .
  have "rig_dims s' 24 1" using dims by (subst fr) (simp add: rig_dims_def)
  moreover have "pose s' = zeros [24, 3]" "beta s' = zeros [10]" "trans s' = zeros [3]"
      "pose_shape s' = [24, 3]" "parent s' = chain24" "kintree_table s' = rig24_kintree"
    by (subst fr, simp add: pre_def rig24_params_def)+
  moreover have "SMPLModel_init g0 rig24_params = Inr s'"
  proof -
    have kt: "prm_kintree_table rig24_params = rig24_kintree"
      by (simp add: rig24_params_def)
    obtain idc where idc:
      "id_to_col_loop (prm_kintree_table rig24_params) [0..<24] Map.empty = Inr idc"
      "parent_loop (prm_kintree_table rig24_params) idc [1..<24] Map.empty = Inr chain24"
      using parents24 unfolding kt bnd_eq_Inr by blast
    have "SMPLModel_init g0 rig24_params =
        (case update g0 pre of (Inl e, s') \<Rightarrow> Inl e | (Inr u, s') \<Rightarrow> Inr s')"
      unfolding SMPLModel_init_def pre_def by (simp only: K bnd_Inr idc)
    then show ?thesis by (simp add: s')
  qed
  ultimately show ?thesis by blast
qed

lemma the_model_facts:
  "SMPLModel_init g0 rig24_params = Inr the_model" "rig_dims the_model 24 1"
  "pose the_model = zeros [24, 3]" "beta the_model = zeros [10]" "trans the_model = zeros [3]"
  "pose_shape the_model = [24, 3]" "parent the_model = chain24"
  "kintree_table the_model = rig24_kintree"
  using init_rig24 by (auto simp: the_model_def)

lemma set_params_eq:
  "set_params g s pa ba ta =
     (case update g (s\<lparr>pose := (case pa of None \<Rightarrow> pose s | Some p \<Rightarrow> p),
                        beta := (case ba of None \<Rightarrow> beta s | Some b \<Rightarrow> b),
                        trans := (case ta of None \<Rightarrow> trans s | Some t \<Rightarrow> t)\<rparr>) of
        (Inl e, s') \<Rightarrow> (Inl e, s')
      | (Inr u, s') \<Rightarrow> (Inr (verts s'), s'))"
  by (cases pa; cases ba; cases ta) (simp_all add: set_params_def)

lemma rig_dims_upd [simp]:
  "rig_dims (s\<lparr>pose := p\<rparr>) K N = rig_dims s K N"
  "rig_dims (s\<lparr>beta := b\<rparr>) K N = rig_dims s K N"
  "rig_dims (s\<lparr>trans := t\<rparr>) K N = rig_dims s K N"
  by (simp_all add: rig_dims_def)


lemma set_params_state:
  assumes "set_params g s pa ba ta = (r, s')"
  shows "pose s' = (case pa of None \<Rightarrow> pose s | Some p \<Rightarrow> p)"
    and "beta s' = (case ba of None \<Rightarrow> beta s | Some b \<Rightarrow> b)"
    and "trans s' = (case ta of None \<Rightarrow> trans s | Some t \<Rightarrow> t)"
    and "\<And>e. r = Inl e \<Longrightarrow> verts s' = verts s"
    and "\<And>v. r = Inr v \<Longrightarrow> (\<exists>V. v = Some V \<and> verts s' = Some V) \<and> update g s' = (Inr (), s')"
proof -
  define s3 where "s3 = s\<lparr>pose := (case pa of None \<Rightarrow> pose s | Some p \<Rightarrow> p),
                        beta := (case ba of None \<Rightarrow> beta s | Some b \<Rightarrow> b),
                        trans := (case ta of None \<Rightarrow> trans s | Some t \<Rightarrow> t)\<rparr>"
  have sp: "set_params g s pa ba ta =
      (case update g s3 of (Inl e, s') \<Rightarrow> (Inl e, s') | (Inr u, s') \<Rightarrow> (Inr (verts s'), s'))"
    unfolding s3_def by (rule set_params_eq)
  obtain r0 where up: "update g s3 = (r0, s')"
    using assms by (auto simp: sp split: prod.splits sum.splits)
  have fr: "s' = s3\<lparr>J := J s', R := R s', verts := verts s'\<rparr>"
    using update_frame[OF up] .
  show "pose s' = (case pa of None \<Rightarrow> pose s | Some p \<Rightarrow> p)"
    by (subst fr) (simp add: s3_def)
  show "beta s' = (case ba of None \<Rightarrow> beta s | Some b \<Rightarrow> b)"
    by (subst fr) (simp add: s3_def)
  show "trans s' = (case ta of None \<Rightarrow> trans s | Some t \<Rightarrow> t)"
    by (subst fr) (simp add: s3_def)
  show "verts s' = verts s" if "r = Inl e" for e
  proof -
    have "r0 = Inl e" using assms that up by (auto simp: sp split: sum.splits)
    then have "verts s' = verts s3" using update_fails_verts up by blast
    then show ?thesis by (simp add: s3_def)
  qed
  show "(\<exists>V. v = Some V \<and> verts s' = Some V) \<and> update g s' = (Inr (), s')" if "r = Inr v" for v
  proof -
    have "\<exists>u. r0 = Inr u \<and> v = verts s'"
      using assms that up by (cases r0) (auto simp: sp)
    then obtain u where "r0 = Inr u" "v = verts s'" by blast
    then show ?thesis using update_succeeds_verts[of g s3 u s'] update_idem[of g s3 u s'] up
      by auto
  qed
qed

lemma shape_blend_fail:
  assumes "shape (shapedirs s) = [N, 3, 10]" "shape (beta s) = [M]" "M \<noteq> 10"
  shows "shape_blend s = Inl ValueError"
  using assms by (simp add: shape_blend_def np_defs)

lemma bad_beta_fails:
  "fst (set_params g0 the_model (Some (ones [24, 3])) (Some (zeros [11])) None) = Inl ValueError"
proof -
  have "shape (shapedirs the_model) = [1, 3, 10]"
    using the_model_facts(2) by (simp add: rig_dims_def)
  then have "shape_blend (the_model\<lparr>pose := ones [24, 3], beta := zeros [11]\<rparr>) = Inl ValueError"
    by (intro shape_blend_fail[of _ 1 11]) (simp_all add: zeros_def)
  then show ?thesis by (simp add: set_params_def update_def)
qed

lemma ones_neq_zeros: "ones [24, 3] \<noteq> zeros [24, 3]"
proof
  assume "ones [24, 3] = zeros [24, 3]"
  then have "get (ones [24, 3]) [0, 0] = get (zeros [24, 3]) [0, 0]" by simp
  then show False by (simp add: ones_def zeros_def get_tabulate valid_idx_def)
qed

lemma pose_blend_ok_gen:
  assumes "shape Rv = [Suc B, 3, 3]" "shape (posedirs s) = [N, 3, 9 * B]" "shape x = [N, 3]"
  shows "\<exists>vp. pose_blend s x Rv = Inr vp \<and> shape vp = [N, 3]"
proof -
  have n: "shape_at Rv 0 = Inr (Suc B)" using assms(1) by (simp add: np_defs)
  obtain ic where ic: "broadcast_to (expand_dims0 (eye 3)) [int (Suc B) - 1, 3, 3] = Inr ic"
      "shape ic = [B, 3, 3]"
    by (simp add: np_defs)
  obtain R1 where R1: "getitem Rv [Slice 1 None] = Inr R1" "shape R1 = [B, 3, 3]"
    using assms(1) by (simp add: np_defs)
  obtain d where d: "bop (-) R1 ic = Inr d" "shape d = [B, 3, 3]"
    using R1(2) ic(2) by (simp add: np_defs)
  obtain pd where pd: "dot (posedirs s) (ravel_nd d) = Inr pd" "shape pd = [N, 3]"
    using d(2) assms(2) by (simp add: np_defs)
  obtain vp where vp: "bop (+) x pd = Inr vp" "shape vp = [N, 3]"
    using pd(2) assms(3) by (simp add: np_defs)
  show ?thesis
    by (simp only: pose_blend_def Let_def n ic R1 d pd vp bnd_Inr sum.inject simp_thms ex_simps)
qed

lemma rest_pose_correction_fail:
  assumes "shape Jv = [K, 3]" "K \<noteq> 24"
  shows "rest_pose_correction G Jv = Inl ValueError"
  using assms by (simp add: rest_pose_correction_def np_defs)

lemma rest_pose_correction_shape:
  assumes "rest_pose_correction G Jv = Inr G'"
  shows "shape Jv = [24, 3]"
proof -
  obtain h where h: "hstack [Jv, zeros [24, 1]] = Inr h" "reshape h [24, 4, 1] \<noteq> Inl ValueError"
    using assms by (auto simp: rest_pose_correction_def bnd_eq_Inr)
  show ?thesis
  proof (cases "shape Jv")
    case Nil
    then show ?thesis using h(1) by (simp add: np_defs)
  next
    case (Cons d0 ds)
    note c0 = this
    show ?thesis
    proof (cases ds)
      case Nil
      then show ?thesis using h(1) c0 by (simp add: np_defs)
    next
      case (Cons d1 ds')
      then have "ds' = [] \<and> d0 = 24 \<and> shape h = [24, d1 + 1]"
        using h(1) c0 by (auto simp: np_defs split: if_splits)
      then show ?thesis using h(2) c0 Cons by (auto simp: np_defs split: if_splits)
    qed
  qed
qed

lemma update_gives_24_joints:
  assumes "update g s = (Inr u, s')"
  shows "\<exists>Jv. J s' = Some Jv \<and> shape Jv = [24, 3]"
  using assms
  by (auto simp: update_def Let_def skinned_vertices_def bnd_eq_Inr
      dest: rest_pose_correction_shape split: sum.splits)

lemma update_K:
  assumes "rig_dims s K N" "0 < K" "shape (beta s) = [10]" "nd_size (pose s) = 3 * K"
    "nd_size (trans s) = 3"
  shows "if K = 24 then \<exists>s' v. update g s = (Inr (), s') \<and> verts s' = Some v \<and> shape v = [N, 3]
         else fst (update g s) = Inl ValueError"
proof (cases "K = 24")
  case True
  then show ?thesis using update_ok[of s N g] assms by simp
next
  case False
  obtain x where x: "shape_blend s = Inr x" "shape x = [N, 3]"
    using shape_blend_ok[of s N] assms(1,3) by (auto simp: rig_dims_def)
  obtain Jv where Jv: "dot (J_regressor s) x = Inr Jv" "shape Jv = [K, 3]"
    using rest_joints_ok[of "J_regressor s" K N x] assms(1) x(2) by (auto simp: rig_dims_def)
  obtain Rv where Rv: "joint_rotations s = Inr Rv" "shape Rv = [K, 3, 3]"
    using joint_rotations_ok[OF assms(4)] by blast
  obtain B where B: "K = Suc B" using assms(2) by (cases K) auto
  obtain vp where vp: "pose_blend s x Rv = Inr vp" "shape vp = [N, 3]"
    using pose_blend_ok_gen[of Rv B s N x] Rv(2) x(2) assms(1) B by (auto simp: rig_dims_def)
  have Kt: "shape_at (kintree_table s) 1 = Inr K"
    using assms(1) by (simp add: rig_dims_def np_defs)
  have par: "\<forall>i\<in>{1..<K}. \<exists>p<K. parent s i = Some p"
    using assms(1) by (simp add: rig_dims_def)
  obtain G where G: "world_transforms g (parent s) K Rv Jv = Inr G" "shape G = [K, 4, 4]"
    using world_transforms_ok[OF Rv(2) Jv(2) assms(2) _ _ par] by auto
  have "rest_pose_correction G Jv = Inl ValueError"
    using rest_pose_correction_fail[OF Jv(2) False] .
  then have "skinned_vertices g s x Jv Rv = Inl ValueError"
    by (simp only: skinned_vertices_def vp Kt G bnd_Inr bnd_Inl)
  then show ?thesis using False
    by (simp add: update_def Let_def x Jv Rv)
qed

lemma pose_blend_fail_gen:
  assumes "shape Rv = [B, 3, 3]" "shape (posedirs s) = [N, 3, M]" "B = 0 \<or> M \<noteq> 9 * (B - 1)"
  shows "pose_blend s x Rv = Inl ValueError"
proof (cases "B = 0")
  case True
  have n: "shape_at Rv 0 = Inr 0" using assms(1) True by (simp add: np_defs)
  have "broadcast_to (expand_dims0 (eye 3)) [int 0 - 1, 3, 3] = Inl ValueError"
    by (simp add: np_defs)
  then show ?thesis by (simp only: pose_blend_def n bnd_Inr bnd_Inl)
next
  case False
  have n: "shape_at Rv 0 = Inr B" using assms(1) by (simp add: np_defs)
  obtain ic where ic: "broadcast_to (expand_dims0 (eye 3)) [int B - 1, 3, 3] = Inr ic"
      "shape ic = [B - 1, 3, 3]"
    using False by (simp add: np_defs nat_diff_distrib')
  obtain R1 where R1: "getitem Rv [Slice 1 None] = Inr R1" "shape R1 = [B - 1, 3, 3]"
    using assms(1) False by (simp add: np_defs)
  obtain d where d: "bop (-) R1 ic = Inr d" "shape d = [B - 1, 3, 3]"
    using R1(2) ic(2) by (simp add: np_defs)
  have "M \<noteq> (B - 1) * 9" using assms(3) False by (simp add: mult.commute)
  then have pd: "dot (posedirs s) (ravel_nd d) = Inl ValueError"
    using d(2) assms(2) by (simp add: np_defs)
  show ?thesis
    by (simp only: pose_blend_def Let_def n ic R1 d pd bnd_Inr bnd_Inl)
qed

lemma rig2_dims: "rig_dims rig2_object 2 2"
proof -
  have "{1..<2::nat} = {1}" by auto
  then show ?thesis
    by (simp add: rig_dims_def rig2_object_def rig2_params_def zeros_def eye_def)
qed

lemma rig2_update_fails: "fst (update g0 rig2_object) = Inl ValueError"
proof -
  have b: "shape (beta rig2_object) = [10]"
    by (simp add: rig2_object_def zeros_def)
  have "shape (shapedirs rig2_object) = [2, 3, 10]" "shape (v_template rig2_object) = [2, 3]"
    using rig2_dims by (simp_all add: rig_dims_def)
  from shape_blend_ok[OF this b]
  obtain x where x: "shape_blend rig2_object = Inr x" "shape x = [2, 3]"
    by blast
  obtain Jv where Jv: "dot (J_regressor rig2_object) x = Inr Jv" "shape Jv = [2, 3]"
    using rest_joints_ok[of "J_regressor rig2_object" 2 2 x] rig2_dims x(2)
    by (auto simp: rig_dims_def)
  have "nd_size (pose rig2_object) = 3 * 24"
    by (simp add: rig2_object_def zeros_def nd_size_def)
  then obtain Rv where Rv: "joint_rotations rig2_object = Inr Rv" "shape Rv = [24, 3, 3]"
    using joint_rotations_ok[of rig2_object 24] by blast
  have "shape (posedirs rig2_object) = [2, 3, 9]"
    by (simp add: rig2_object_def rig2_params_def zeros_def)
  then have "pose_blend rig2_object x Rv = Inl ValueError"
    using pose_blend_fail_gen[OF Rv(2), of rig2_object 2 9 x] by simp
  then show ?thesis
    by (simp add: update_def Let_def x Jv Rv skinned_vertices_def)
qed

lemma rig2_init_fails: "SMPLModel_init g0 rig2_params = Inl ValueError"
proof -
  have K: "shape_at (prm_kintree_table rig2_params) 1 = Inr 2"
    by (simp add: rig2_params_def shape_at_def ndim_def)
  have u2: "[0..<2] = [0, 1]" "[1..<2] = [1]" by (simp_all add: upt_rec)
  have idc: "id_to_col_loop (prm_kintree_table rig2_params) [0..<2] Map.empty = Inr [0 \<mapsto> 0, 1 \<mapsto> 1]"
    unfolding u2 by (simp add: rig2_params_def kintree_key_def get_def ndim_def)
  have par: "parent_loop (prm_kintree_table rig2_params) [0 \<mapsto> 0, 1 \<mapsto> 1] [1..<2] Map.empty
      = Inr [1 \<mapsto> 0]"
    unfolding u2 by (simp add: rig2_params_def kintree_key_def get_def ndim_def)
  have "SMPLModel_init g0 rig2_params =
      (case update g0 rig2_object of (Inl e, s') \<Rightarrow> Inl e | (Inr u, s') \<Rightarrow> Inr s')"
    unfolding SMPLModel_init_def rig2_object_def by (simp only: K bnd_Inr idc par)
  then show ?thesis using rig2_update_fails
    by (cases "update g0 rig2_object") (auto split: sum.splits)
qed

lemma rig2_set_params_fails:
  "fst (set_params g0 rig2_object (Some rig2_pose) None (Some (zeros [3]))) = Inl ValueError"
proof -
  define s where "s = rig2_object\<lparr>pose := rig2_pose, trans := zeros [3]\<rparr>"
  have "rig_dims s 2 2" using rig2_dims by (simp add: s_def)
  moreover have "shape (beta s) = [10]" "nd_size (pose s) = 3 * 2" "nd_size (trans s) = 3"
    by (simp_all add: s_def rig2_object_def rig2_pose_def zeros_def nd_size_def)
  ultimately have "fst (update g0 s) = Inl ValueError"
    using update_K[of s 2 2 g0] by simp
  then show ?thesis
    by (cases "update g0 s") (auto simp: set_params_def s_def split: sum.splits)
qed

lemma valid_idx_simps [simp]:
  "valid_idx [] [] = True"
  "valid_idx (d # ds) (i # js) = (i < d \<and> valid_idx ds js)"
  "valid_idx (d # ds) [] = False"
  "valid_idx [] (i # js) = False"
  by (simp_all add: valid_idx_def)

lemma valid_idx_length: "valid_idx sh idx \<Longrightarrow> length idx = length sh"
  by (simp add: valid_idx_def list_all2_lengthD)

lemma valid_idx_Cons_iff: "valid_idx (d # ds) idx \<longleftrightarrow> (\<exists>i js. idx = i # js \<and> i < d \<and> valid_idx ds js)"
  by (cases idx) simp_all

lemma bidx_same: "valid_idx sh idx \<Longrightarrow> bidx sh idx = idx"
proof -
  assume v: "valid_idx sh idx"
  then have "map2 (\<lambda>d i. if d = 1 then 0 else i) sh idx = idx"
    unfolding valid_idx_def
    by (induction idx sh rule: list_all2_induct) auto
  then show ?thesis using valid_idx_length[OF v] by (simp add: bidx_def)
qed

lemma bidx_Nil [simp]: "bidx [] idx = []"
  by (simp add: bidx_def)

lemma get_scalar [simp]: "get (scalar x) [] = x"
  by (simp add: get_def scalar_def)

lemma get_NDArray: "get (NDArray sh xs) idx = xs ! ravel sh idx"
  by (simp add: get_def)

lemma get_map_nd: "wf_nd a \<Longrightarrow> valid_idx (shape a) idx \<Longrightarrow> get (map_nd f a) idx = f (get a idx)"
  using ravel_lt[of "shape a" idx] by (simp add: get_def map_nd_def wf_nd_def)

lemma shape_map_nd [simp]: "shape (map_nd f a) = shape a"
  by (simp add: map_nd_def)

lemma wf_map_nd [simp]: "wf_nd (map_nd f a) = wf_nd a"
  by (simp add: map_nd_def wf_nd_def)

lemma bop_Inr:
  assumes "bop f a b = Inr c"
  shows "\<exists>sh. bshape (shape a) (shape b) = Some sh \<and>
     c = tabulate sh (\<lambda>idx. f (get a (bidx (shape a) idx)) (get b (bidx (shape b) idx)))"
  using assms by (auto simp: bop_def split: option.splits)

lemma bop_wf: "bop f a b = Inr c \<Longrightarrow> wf_nd c"
  by (auto dest: bop_Inr)

lemma bop_get:
  assumes "bop f a b = Inr c" "valid_idx (shape c) idx"
  shows "get c idx = f (get a (bidx (shape a) idx)) (get b (bidx (shape b) idx))"
  using bop_Inr[OF assms(1)] assms(2) by (auto simp: get_tabulate)

lemma getitem_Inr:
  assumes "getitem a xs = Inr c"
  shows "ix_ok xs (shape a) \<and> c = tabulate (ix_shape xs (shape a)) (\<lambda>idx. get a (ix_src xs idx))"
  using assms by (auto simp: getitem_def split: if_splits)

lemma getitem_wf: "getitem a xs = Inr c \<Longrightarrow> wf_nd c"
  by (auto dest: getitem_Inr)

lemma getitem_get:
  assumes "getitem a xs = Inr c" "valid_idx (shape c) idx"
  shows "get c idx = get a (ix_src xs idx)"
  using getitem_Inr[OF assms(1)] assms(2) by (auto simp: get_tabulate)

lemma getitem_row:
  assumes "shape G = K # ds" "p < K"
  shows "getitem G [At p] = Inr (tabulate ds (\<lambda>idx. get G (p # idx)))"
  using assms by (simp add: getitem_def)

lemma setitem0_row:
  assumes "shape G = K # ds" "i < K" "shape x = ds"
  shows "setitem0 G i x = Inr (tabulate (K # ds) (\<lambda>idx. if hd idx = i then get x (tl idx) else get G idx))"
proof -
  have "list_all2 (\<lambda>d e. d = e \<or> d = 1) ds ds"
    by (simp add: list_all2_same)
  moreover have "tabulate (K # ds)
        (\<lambda>idx. if hd idx = i then get x (bidx (shape x) (tl idx)) else get G idx)
      = tabulate (K # ds) (\<lambda>idx. if hd idx = i then get x (tl idx) else get G idx)"
    by (rule tabulate_cong) (auto simp: valid_idx_Cons_iff bidx_same assms(3))
  ultimately show ?thesis using assms by (simp add: setitem0_def)
qed

lemma setitem0_Inr:
  assumes "setitem0 G i x = Inr G'"
  shows "\<exists>K ds. shape G = K # ds \<and> i < K \<and>
     G' = tabulate (K # ds) (\<lambda>idx. if hd idx = i then get x (bidx (shape x) (tl idx)) else get G idx)"
  using assms by (auto simp: setitem0_def split: list.splits if_splits)

lemma kin_step_agree:
  assumes sh: "shape G1 = K # ds" "shape G2 = K # ds"
    and ag: "rows_agree i ds G1 G2"
    and p: "par i = Some p" "p < i" "i < K"
  shows "(\<exists>e. kin_step par Rv Jv i G1 = Inl e \<and> kin_step par Rv Jv i G2 = Inl e) \<or>
         (\<exists>G1' G2'. kin_step par Rv Jv i G1 = Inr G1' \<and> kin_step par Rv Jv i G2 = Inr G2' \<and>
            shape G1' = K # ds \<and> shape G2' = K # ds \<and> wf_nd G1' \<and> wf_nd G2' \<and>
            rows_agree (Suc i) ds G1' G2')"
proof -
  have pK: "p < K" using p by simp
  define Gp where "Gp = tabulate ds (\<lambda>idx. get G1 (p # idx))"
  have g1: "getitem G1 [At p] = Inr Gp"
    unfolding Gp_def by (rule getitem_row[OF sh(1) pK])
  have "tabulate ds (\<lambda>idx. get G2 (p # idx)) = Gp"
    unfolding Gp_def using ag p(2) by (intro tabulate_cong) (simp add: rows_agree_def)
  then have g2: "getitem G2 [At p] = Inr Gp"
    using getitem_row[OF sh(2) pK] by simp
  define X where "X = bnd (local_child Rv Jv i p) (dot Gp)"
  have k1: "kin_step par Rv Jv i G1 = bnd X (setitem0 G1 i)"
    and k2: "kin_step par Rv Jv i G2 = bnd X (setitem0 G2 i)"
    by (simp_all add: kin_step_def p(1) g1 g2 X_def bnd_def split: sum.splits)
  show ?thesis
  proof (cases X)
    case (Inl e)
    then show ?thesis by (simp add: k1 k2)
  next
    case (Inr x)
    show ?thesis
    proof (cases "length (shape x) \<le> length ds \<and>
        list_all2 (\<lambda>d e. d = e \<or> d = 1) (shape x) (drop (length ds - length (shape x)) ds)")
      case False
      then have "setitem0 G1 i x = Inl ValueError" "setitem0 G2 i x = Inl ValueError"
        using sh p(3) by (auto simp: setitem0_def)
      then show ?thesis by (simp add: k1 k2 Inr)
    next
      case True
      define F where "F = (\<lambda>G idx. if hd idx = i then get x (bidx (shape x) (tl idx))
                               else get (G::real ndarray) idx)"
      have s1: "setitem0 G1 i x = Inr (tabulate (K # ds) (F G1))"
        and s2: "setitem0 G2 i x = Inr (tabulate (K # ds) (F G2))"
        using True sh p(3) by (simp_all add: setitem0_def F_def)
      have "rows_agree (Suc i) ds (tabulate (K # ds) (F G1)) (tabulate (K # ds) (F G2))"
        unfolding rows_agree_def
      proof (intro allI impI)
        fix j idx assume j: "j < Suc i" and v: "valid_idx ds idx"
        have vj: "valid_idx (K # ds) (j # idx)" using j p(3) v by simp
        have "F G1 (j # idx) = F G2 (j # idx)"
          using ag j v by (auto simp: F_def rows_agree_def)
        then show "get (tabulate (K # ds) (F G1)) (j # idx) = get (tabulate (K # ds) (F G2)) (j # idx)"
          by (simp add: get_tabulate[OF vj])
      qed
      then show ?thesis by (simp add: k1 k2 Inr s1 s2)
    qed
  qed
qed

lemma rows_agree_all:
  assumes "shape G1 = K # ds" "shape G2 = K # ds" "wf_nd G1" "wf_nd G2" "rows_agree K ds G1 G2"
  shows "G1 = G2"
proof (rule nd_ext)
  show "wf_nd G1" "wf_nd G2" "shape G1 = shape G2" using assms by simp_all
  fix idx assume "valid_idx (shape G1) idx"
  then obtain j js where "idx = j # js" "j < K" "valid_idx ds js"
    using assms(1) by (auto simp: valid_idx_Cons_iff)
  then show "get G1 idx = get G2 idx" using assms(5) by (simp add: rows_agree_def)
qed

lemma kin_loop_agree:
  assumes "parents_first par K" "1 \<le> m" "m \<le> K"
    and "shape G1 = K # ds" "shape G2 = K # ds" "wf_nd G1" "wf_nd G2" "rows_agree m ds G1 G2"
  shows "kin_loop par Rv Jv [m..<K] G1 = kin_loop par Rv Jv [m..<K] G2"
  using assms(2-)
proof (induction "K - m" arbitrary: m G1 G2)
  case 0
  then have "m = K" by simp
  then show ?case using rows_agree_all[of G1 K ds G2] 0 by simp
next
  case (Suc n)
  then have lt: "m < K" by simp
  have "m \<in> {1..<K}" using lt Suc.prems(1) by simp
  then obtain p where p: "par m = Some p" "p < m"
    using assms(1) unfolding parents_first_def by blast
  have up: "[m..<K] = m # [Suc m..<K]" using lt by (simp add: upt_conv_Cons)
  have "(\<exists>e. kin_step par Rv Jv m G1 = Inl e \<and> kin_step par Rv Jv m G2 = Inl e) \<or>
      (\<exists>G1' G2'. kin_step par Rv Jv m G1 = Inr G1' \<and> kin_step par Rv Jv m G2 = Inr G2' \<and>
        shape G1' = K # ds \<and> shape G2' = K # ds \<and> wf_nd G1' \<and> wf_nd G2' \<and>
        rows_agree (Suc m) ds G1' G2')"
    using kin_step_agree[of G1 K ds G2 m par p Rv Jv] Suc.prems(3,4,7) p lt by blast
  then show ?case
  proof
    assume "\<exists>e. kin_step par Rv Jv m G1 = Inl e \<and> kin_step par Rv Jv m G2 = Inl e"
    then show ?thesis by (auto simp: up)
  next
    assume "\<exists>G1' G2'. kin_step par Rv Jv m G1 = Inr G1' \<and> kin_step par Rv Jv m G2 = Inr G2' \<and>
        shape G1' = K # ds \<and> shape G2' = K # ds \<and> wf_nd G1' \<and> wf_nd G2' \<and>
        rows_agree (Suc m) ds G1' G2'"
    then obtain G1' G2' where s: "kin_step par Rv Jv m G1 = Inr G1'"
        "kin_step par Rv Jv m G2 = Inr G2'" "shape G1' = K # ds" "shape G2' = K # ds"
        "wf_nd G1'" "wf_nd G2'" "rows_agree (Suc m) ds G1' G2'"
      by blast
    have "kin_loop par Rv Jv [Suc m..<K] G1' = kin_loop par Rv Jv [Suc m..<K] G2'"
      using Suc.hyps(2) lt s(3-) by (intro Suc.hyps(1)) auto
    then show ?thesis by (simp add: up s(1,2))
  qed
qed

lemma world_transforms_junk:
  assumes "parents_first par K"
  shows "world_transforms g1 par K Rv Jv = world_transforms g2 par K Rv Jv"
proof (cases "local_root Rv Jv")
  case (Inl e)
  then show ?thesis by (simp add: world_transforms_def)
next
  case (Inr L0)
  define E1 where "E1 = np_empty g1 [K, 4, 4]"
  define E2 where "E2 = np_empty g2 [K, 4, 4]"
  have sh: "shape E1 = [K, 4, 4]" "shape E2 = [K, 4, 4]"
    by (simp_all add: E1_def E2_def np_empty_def)
  have wt: "world_transforms g1 par K Rv Jv = bnd (setitem0 E1 0 L0) (kin_loop par Rv Jv [1..<K])"
    "world_transforms g2 par K Rv Jv = bnd (setitem0 E2 0 L0) (kin_loop par Rv Jv [1..<K])"
    by (simp_all add: world_transforms_def Inr E1_def E2_def)
  show ?thesis
  proof (cases "0 < K \<and> length (shape L0) \<le> length [4::nat, 4] \<and>
        list_all2 (\<lambda>d e. d = e \<or> d = 1) (shape L0)
          (drop (length [4::nat, 4] - length (shape L0)) [4, 4])")
    case False
    then have "setitem0 E1 0 L0 = setitem0 E2 0 L0"
      using sh by (auto simp: setitem0_def)
    moreover have "\<exists>e. setitem0 E1 0 L0 = Inl e"
      using False sh by (auto simp: setitem0_def)
    ultimately show ?thesis by (auto simp: wt)
  next
    case True
    define F where "F = (\<lambda>G idx. if hd idx = 0 then get L0 (bidx (shape L0) (tl idx))
                             else get (G::real ndarray) idx)"
    have s1: "setitem0 E1 0 L0 = Inr (tabulate [K, 4, 4] (F E1))"
      and s2: "setitem0 E2 0 L0 = Inr (tabulate [K, 4, 4] (F E2))"
      using True sh by (simp_all add: setitem0_def F_def)
    have ag: "rows_agree 1 [4, 4] (tabulate [K, 4, 4] (F E1)) (tabulate [K, 4, 4] (F E2))"
      unfolding rows_agree_def
    proof (intro allI impI)
      fix j idx assume j: "j < (1::nat)" and v: "valid_idx [4, 4] idx"
      show "get (tabulate [K, 4, 4] (F E1)) (j # idx) = get (tabulate [K, 4, 4] (F E2)) (j # idx)"
        using j v True by (simp add: get_tabulate F_def)
    qed
    have "kin_loop par Rv Jv [1..<K] (tabulate [K, 4, 4] (F E1))
        = kin_loop par Rv Jv [1..<K] (tabulate [K, 4, 4] (F E2))"
      using True ag by (intro kin_loop_agree[OF assms, of 1 _ "[4, 4]"]) auto
    then show ?thesis by (simp add: wt s1 s2)
  qed
qed

lemma skinned_vertices_eq:
  assumes "same_rig s1 s2"
    and "g1 = g2 \<or> parents_first (parent s1) (joint_count s1)"
  shows "skinned_vertices g1 s1 x Jv Rv = skinned_vertices g2 s2 x Jv Rv"
proof -
  have pb: "pose_blend s1 x Rv = pose_blend s2 x Rv"
    using assms(1) by (simp add: pose_blend_def same_rig_def)
  have sk: "skinning s1 = skinning s2"
    using assms(1) by (simp add: skinning_def same_rig_def fun_eq_iff)
  have kt: "kintree_table s1 = kintree_table s2" "parent s1 = parent s2"
    using assms(1) by (simp_all add: same_rig_def)
  have wt: "world_transforms g1 (parent s1) K Rv Jv = world_transforms g2 (parent s2) K Rv Jv"
    if "shape_at (kintree_table s1) 1 = Inr K" for K
  proof -
    have "K = joint_count s1" using that by (auto simp: shape_at_def joint_count_def split: if_splits)
    then show ?thesis using assms(2) kt(2) world_transforms_junk[where par="parent s1" and K=K and Rv=Rv and Jv=Jv and ?g1.0=g1
          and ?g2.0=g2]
      by auto
  qed
  show ?thesis
  proof (cases "pose_blend s1 x Rv")
    case (Inl e)
    then show ?thesis using pb by (simp add: skinned_vertices_def)
  next
    case vp: (Inr vp)
    show ?thesis
    proof (cases "shape_at (kintree_table s1) 1")
      case (Inl e)
      then show ?thesis using pb vp kt by (simp add: skinned_vertices_def)
    next
      case (Inr K)
      then show ?thesis using pb vp kt wt[OF Inr] sk by (simp add: skinned_vertices_def)
    qed
  qed
qed

lemma update_eq:
  assumes "same_rig s1 s2" "pose s1 = pose s2" "beta s1 = beta s2" "trans s1 = trans s2"
    and "g1 = g2 \<or> parents_first (parent s1) (joint_count s1)"
  shows "fst (update g1 s1) = fst (update g2 s2) \<and>
         (\<forall>u. fst (update g1 s1) = Inr u \<longrightarrow> verts (snd (update g1 s1)) = verts (snd (update g2 s2)))"
proof -
  have sb: "shape_blend s1 = shape_blend s2"
    using assms(1,3) by (simp add: shape_blend_def same_rig_def)
  have jr: "J_regressor s1 = J_regressor s2" using assms(1) by (simp add: same_rig_def)
  have rot: "joint_rotations s1 = joint_rotations s2"
    using assms(2) by (simp add: joint_rotations_def)
  have tr: "translate s1 = translate s2"
    using assms(4) by (simp add: translate_def fun_eq_iff)
  have sv: "skinned_vertices g1 s1 x Jv Rv = skinned_vertices g2 s2 x Jv Rv" for x Jv Rv
    using skinned_vertices_eq[OF assms(1,5)] .
  show ?thesis
    by (auto simp: update_def Let_def sb jr rot tr sv split: sum.splits)
qed

lemma same_rig_upd [simp]:
  "same_rig (s1\<lparr>pose := p\<rparr>) s2 = same_rig s1 s2"
  "same_rig (s1\<lparr>beta := b\<rparr>) s2 = same_rig s1 s2"
  "same_rig (s1\<lparr>trans := t\<rparr>) s2 = same_rig s1 s2"
  "same_rig s1 (s2\<lparr>pose := p\<rparr>) = same_rig s1 s2"
  "same_rig s1 (s2\<lparr>beta := b\<rparr>) = same_rig s1 s2"
  "same_rig s1 (s2\<lparr>trans := t\<rparr>) = same_rig s1 s2"
  by (simp_all add: same_rig_def)

lemma joint_count_upd [simp]:
  "joint_count (s\<lparr>pose := p\<rparr>) = joint_count s"
  "joint_count (s\<lparr>beta := b\<rparr>) = joint_count s"
  "joint_count (s\<lparr>trans := t\<rparr>) = joint_count s"
  by (simp_all add: joint_count_def)

lemma set_params_fst_eq:
  assumes "same_rig s1 s2"
    and "g1 = g2 \<or> parents_first (parent s1) (joint_count s1)"
    and "pa = None \<longrightarrow> pose s1 = pose s2"
    and "ba = None \<longrightarrow> beta s1 = beta s2"
    and "ta = None \<longrightarrow> trans s1 = trans s2"
  shows "fst (set_params g1 s1 pa ba ta) = fst (set_params g2 s2 pa ba ta)"
proof -
  define a1 where "a1 = s1\<lparr>pose := (case pa of None \<Rightarrow> pose s1 | Some p \<Rightarrow> p),
                        beta := (case ba of None \<Rightarrow> beta s1 | Some b \<Rightarrow> b),
                        trans := (case ta of None \<Rightarrow> trans s1 | Some t \<Rightarrow> t)\<rparr>"
  define a2 where "a2 = s2\<lparr>pose := (case pa of None \<Rightarrow> pose s2 | Some p \<Rightarrow> p),
                        beta := (case ba of None \<Rightarrow> beta s2 | Some b \<Rightarrow> b),
                        trans := (case ta of None \<Rightarrow> trans s2 | Some t \<Rightarrow> t)\<rparr>"
  have sp: "set_params g1 s1 pa ba ta =
      (case update g1 a1 of (Inl e, s') \<Rightarrow> (Inl e, s') | (Inr u, s') \<Rightarrow> (Inr (verts s'), s'))"
    "set_params g2 s2 pa ba ta =
      (case update g2 a2 of (Inl e, s') \<Rightarrow> (Inl e, s') | (Inr u, s') \<Rightarrow> (Inr (verts s'), s'))"
    unfolding a1_def a2_def by (rule set_params_eq)+
  have "same_rig a1 a2" using assms(1) by (simp add: a1_def a2_def)
  moreover have "pose a1 = pose a2" "beta a1 = beta a2" "trans a1 = trans a2"
    using assms(3,4,5) by (auto simp: a1_def a2_def split: option.splits)
  moreover have "g1 = g2 \<or> parents_first (parent a1) (joint_count a1)"
    using assms(2) by (simp add: a1_def)
  ultimately have "fst (update g1 a1) = fst (update g2 a2) \<and>
         (\<forall>u. fst (update g1 a1) = Inr u \<longrightarrow> verts (snd (update g1 a1)) = verts (snd (update g2 a2)))"
    by (rule update_eq)
  then show ?thesis
    by (cases "update g1 a1"; cases "update g2 a2") (auto simp: sp split: sum.splits)
qed

lemma reshape_Inr:
  assumes "reshape a ns = Inr c"
  shows "flat c = flat a \<and> prod_list (shape c) = nd_size a \<and> length (shape c) = length ns"
proof -
  have "flat c = flat a" "length (shape c) = length ns"
    using assms by (auto simp: reshape_def Let_def split: if_splits)
  moreover have "prod_list (shape c) = nd_size a"
  proof (cases "- 1 \<in> set ns")
    case False
    then have "filter (\<lambda>d. d \<noteq> - 1) ns = ns" by (induction ns) auto
    then show ?thesis using assms False by (auto simp: reshape_def Let_def split: if_splits)
  next
    case True
    define known where "known = prod_list (map nat (filter (\<lambda>d. d \<noteq> - 1) ns))"
    define q where "q = nd_size a div known"
    have one: "length (filter (\<lambda>d. d = - 1) ns) = 1"
      using assms True by (auto simp: reshape_def Let_def filter_empty_conv
          split: if_splits intro!: le_antisym Suc_leI)
    have k: "known \<noteq> 0" "nd_size a mod known = 0"
      and c: "shape c = map (\<lambda>d. if d = - 1 then q else nat d) ns"
      using assms True by (auto simp: reshape_def Let_def known_def q_def split: if_splits)
    have "prod_list (map (\<lambda>d. if d = - 1 then q else nat d) xs)
        = q ^ length (filter (\<lambda>d. d = - 1) xs) * prod_list (map nat (filter (\<lambda>d. d \<noteq> - 1) xs))"
      for xs :: "int list"
      by (induction xs) auto
    then have "prod_list (shape c) = q * known"
      by (simp add: c one known_def)
    then show ?thesis using k div_mult_mod_eq[of "nd_size a" known] by (simp add: q_def)
  qed
  ultimately show ?thesis by simp
qed



lemma translate_get:
  assumes "translate s v = Inr V" "shape v = [M, 3]"
  shows "shape V = [M, 3]" and "\<And>i j. i < M \<Longrightarrow> j < 3 \<Longrightarrow> get V [i, j] = get v [i, j] + flat (trans s) ! j"
proof -
  obtain t where t: "reshape (trans s) [1, 3] = Inr t" "bop (+) v t = Inr V"
    using assms(1) by (auto simp: translate_def bnd_eq_Inr)
  have tt: "t = NDArray [1, 3] (flat (trans s))"
    using t(1) by (auto simp: reshape_def Let_def split: if_splits)
  have bs: "bshape (shape v) (shape t) = Some [M, 3]"
    using assms(2) by (simp add: tt bshape_def)
  then have V: "V = tabulate [M, 3] (\<lambda>idx. get v (bidx (shape v) idx) + get t (bidx (shape t) idx))"
    using bop_Inr[OF t(2)] by auto
  show "shape V = [M, 3]" by (simp add: V)
  fix i j :: nat assume ij: "i < M" "j < 3"
  then have val: "valid_idx [M, 3] [i, j]" by simp
  have b1: "bidx (shape v) [i, j] = [i, j]"
    using bidx_same[OF val] assms(2) by simp
  have b2: "bidx (shape t) [i, j] = [0, j]"
    using ij by (simp add: tt bidx_def)
  show "get V [i, j] = get v [i, j] + flat (trans s) ! j"
    by (simp add: V get_tabulate[OF val] b1 b2) (simp add: tt get_def)
qed

lemma update_Inr_decomp:
  assumes "update g s = (Inr u, s')"
  shows "\<exists>x Jv Rv v V. shape_blend s = Inr x \<and> dot (J_regressor s) x = Inr Jv \<and>
     joint_rotations s = Inr Rv \<and> skinned_vertices g s x Jv Rv = Inr v \<and>
     translate s v = Inr V \<and> verts s' = Some V"
  using assms
  by (auto simp: update_def Let_def bnd_eq_Inr split: sum.splits)



lemma chain24_parents_first: "parents_first chain24 24"
proof -
  have "{1..<24::nat} = set [1..<24]" by simp
  then show ?thesis unfolding parents_first_def upt24' by (simp add: chain24_def)
qed

lemma the_model_parents_first: "parents_first (parent the_model) (joint_count the_model)"
  using chain24_parents_first
  by (simp add: the_model_facts joint_count_def rig24_kintree_def)

lemma hstack_col_shape:
  assumes "hstack [a, t] = Inr h" "shape t = [3, 1]"
  shows "\<exists>c. shape a = [3, c] \<and> shape h = [3, Suc c] \<and> wf_nd h"
proof (cases "shape a")
  case Nil
  then show ?thesis using assms by (simp add: np_defs)
next
  case (Cons d0 ds)
  note c0 = this
  show ?thesis
  proof (cases ds)
    case Nil
    then show ?thesis using assms c0 by (simp add: np_defs)
  next
    case (Cons d1 ds')
    then show ?thesis using assms c0
      by (auto simp: np_defs split: if_splits)
  qed
qed

lemma with_zeros_rows3:
  assumes "with_zeros h = Inr L" "shape h = [3, c]"
  shows "shape L = [4, 4] \<and> wf_nd L \<and> c = 4"
  using assms by (auto simp: np_defs split: if_splits)

lemma reshape_shape31:
  assumes "reshape d [3, 1] = Inr t"
  shows "shape t = [3, 1]"
  using assms by (auto simp: reshape_def Let_def split: if_splits)

lemma local_child_shape:
  assumes "local_child Rv Jv i p = Inr L"
  shows "shape L = [4, 4] \<and> wf_nd L"
proof -
  obtain Ri d t h where s: "reshape d [3, 1] = Inr t" "hstack [Ri, t] = Inr h" "with_zeros h = Inr L"
    using assms by (auto simp: local_child_def bnd_eq_Inr)
  from hstack_col_shape[OF s(2) reshape_shape31[OF s(1)]] obtain c where "shape h = [3, Suc c]"
    by blast
  from with_zeros_rows3[OF s(3) this] show ?thesis by simp
qed

lemma local_root_shape:
  assumes "local_root Rv Jv = Inr L"
  shows "shape L = [4, 4] \<and> wf_nd L"
proof -
  obtain R0 d t h where s: "reshape d [3, 1] = Inr t" "hstack [R0, t] = Inr h" "with_zeros h = Inr L"
    using assms by (auto simp: local_root_def bnd_eq_Inr)
  from hstack_col_shape[OF s(2) reshape_shape31[OF s(1)]] obtain c where "shape h = [3, Suc c]"
    by blast
  from with_zeros_rows3[OF s(3) this] show ?thesis by simp
qed

lemma dot44:
  assumes "shape a = [4, 4]" "shape b = [4, 4]"
  shows "\<exists>c. dot a b = Inr c \<and> shape c = [4, 4] \<and> wf_nd c"
  using assms by (simp add: np_defs)

lemma getitem_setitem0:
  assumes "shape G = K # ds" "i < K" "j < K" "shape x = ds" "wf_nd x"
    and "setitem0 G i x = Inr G'"
  shows "getitem G' [At j] = (if j = i then Inr x else getitem G [At j])"
    and "shape G' = K # ds" and "wf_nd G'"
proof -
  have G': "G' = tabulate (K # ds) (\<lambda>idx. if hd idx = i then get x (tl idx) else get G idx)"
    using setitem0_row[OF assms(1,2,4)] assms(6) by simp
  show "shape G' = K # ds" "wf_nd G'" by (simp_all add: G')
  have "getitem G' [At j] = Inr (tabulate ds (\<lambda>idx. get G' (j # idx)))"
    using getitem_row[of G' K ds j] assms(3) by (simp add: G')
  also have "tabulate ds (\<lambda>idx. get G' (j # idx))
      = tabulate ds (\<lambda>idx. if j = i then get x idx else get G (j # idx))"
    by (rule tabulate_cong) (simp add: G' get_tabulate assms(3))
  also have "Inr \<dots> = (if j = i then Inr x else getitem G [At j])"
    using tabulate_get[OF assms(5)] assms(4) getitem_row[OF assms(1,3)] by auto
  finally show "getitem G' [At j] = (if j = i then Inr x else getitem G [At j])" .
qed

lemma kin_step_rhs:
  "kin_step par Rv Jv i G = bnd (recurrence_rhs par Rv Jv G i) (setitem0 G i)"
  by (cases "par i") (auto simp: kin_step_def recurrence_rhs_def bnd_def split: sum.splits)

lemma recurrence_rhs_shape:
  assumes "recurrence_rhs par Rv Jv G i = Inr x" "shape G = [K, 4, 4]"
  shows "shape x = [4, 4] \<and> wf_nd x"
proof -
  obtain p Gp L where s: "par i = Some p" "getitem G [At p] = Inr Gp"
      "local_child Rv Jv i p = Inr L" "dot Gp L = Inr x"
    using assms(1) by (auto simp: recurrence_rhs_def bnd_eq_Inr split: option.splits)
  have "shape Gp = [4, 4]" using getitem_Inr[OF s(2)] assms(2) by (auto split: if_splits)
  then show ?thesis using dot44[of Gp L] local_child_shape[OF s(3)] s(4) by auto
qed

lemma recurrence_rhs_cong:
  assumes "par i = Some p" "getitem G1 [At p] = getitem G2 [At p]"
  shows "recurrence_rhs par Rv Jv G1 i = recurrence_rhs par Rv Jv G2 i"
  using assms by (simp add: recurrence_rhs_def)

lemma kin_loop_recurrence:
  assumes pf: "parents_first par K"
    and "1 \<le> m" "m \<le> K" "shape G = [K, 4, 4]"
    and "getitem G [At 0] = Inr L0"
    and "\<forall>i\<in>{1..<m}. getitem G [At i] = recurrence_rhs par Rv Jv G i"
    and "kin_loop par Rv Jv [m..<K] G = Inr Gf"
  shows "getitem Gf [At 0] = Inr L0 \<and>
         (\<forall>i\<in>{1..<K}. getitem Gf [At i] = recurrence_rhs par Rv Jv Gf i)"
  using assms(2-)
proof (induction "K - m" arbitrary: m G)
  case 0
  then show ?case by simp
next
  case (Suc n)
  then have lt: "m < K" by simp
  have up: "[m..<K] = m # [Suc m..<K]" using lt by (simp add: upt_conv_Cons)
  obtain x G1 where st: "recurrence_rhs par Rv Jv G m = Inr x" "setitem0 G m x = Inr G1"
      "kin_loop par Rv Jv [Suc m..<K] G1 = Inr Gf"
    using Suc.prems(6) by (auto simp: up kin_step_rhs bnd_eq_Inr)
  have x: "shape x = [4, 4]" "wf_nd x"
    using recurrence_rhs_shape[OF st(1) Suc.prems(3)] by simp_all
  have row: "getitem G1 [At j] = (if j = m then Inr x else getitem G [At j])" if "j < K" for j
    using getitem_setitem0(1)[OF Suc.prems(3) lt that x st(2)] .
  have sh1: "shape G1 = [K, 4, 4]"
    using getitem_setitem0(2)[OF Suc.prems(3) lt lt x st(2)] .
  have rhs: "recurrence_rhs par Rv Jv G1 i = recurrence_rhs par Rv Jv G i"
    if "1 \<le> i" "i \<le> m" for i
  proof -
    have "i \<in> {1..<K}" using that lt by simp
    then obtain p where p: "par i = Some p" "p < i"
      using pf unfolding parents_first_def by blast
    then have "getitem G1 [At p] = getitem G [At p]" using row[of p] that lt by simp
    then show ?thesis using p(1) by (simp add: recurrence_rhs_def)
  qed
  have inv: "\<forall>i\<in>{1..<Suc m}. getitem G1 [At i] = recurrence_rhs par Rv Jv G1 i"
  proof
    fix i assume i: "i \<in> {1..<Suc m}"
    show "getitem G1 [At i] = recurrence_rhs par Rv Jv G1 i"
    proof (cases "i = m")
      case True
      then show ?thesis using row[of m] lt rhs[of m] i st(1) by simp
    next
      case False
      then have "i \<in> {1..<m}" using i by simp
      then show ?thesis using row[of i] lt rhs[of i] Suc.prems(5) False i by simp
    qed
  qed
  have root: "getitem G1 [At 0] = Inr L0"
    using row[of 0] lt Suc.prems(1,4) by simp
  show ?case
    using Suc.hyps(2) lt
    by (intro Suc.hyps(1)[OF _ _ _ sh1 root inv st(3)]) auto
qed

lemma world_transforms_recurrence:
  assumes "parents_first par K" "world_transforms g par K Rv Jv = Inr G"
  shows "satisfies_recurrence par K Rv Jv G"
proof -
  obtain L0 G0 where s: "local_root Rv Jv = Inr L0"
      "setitem0 (np_empty g [K, 4, 4]) 0 L0 = Inr G0" "kin_loop par Rv Jv [1..<K] G0 = Inr G"
    using assms(2) by (auto simp: world_transforms_def Let_def bnd_eq_Inr)
  have L0: "shape L0 = [4, 4]" "wf_nd L0" using local_root_shape[OF s(1)] by simp_all
  have shE: "shape (np_empty g [K, 4, 4]) = [K, 4, 4]" by (simp add: np_empty_def)
  have K: "0 < K" using s(2) by (auto simp: setitem0_def np_empty_def split: if_splits)
  have root: "getitem G0 [At 0] = Inr L0"
    using getitem_setitem0(1)[OF shE K K L0 s(2)] by simp
  have sh0: "shape G0 = [K, 4, 4]"
    using getitem_setitem0(2)[OF shE K K L0 s(2)] .
  have "getitem G [At 0] = Inr L0 \<and>
         (\<forall>i\<in>{1..<K}. getitem G [At i] = recurrence_rhs par Rv Jv G i)"
    using K by (intro kin_loop_recurrence[OF assms(1) _ _ sh0 root _ s(3)]) auto
  then show ?thesis by (simp add: satisfies_recurrence_def s(1))
qed

lemma upt4: "[0..<4] = [0, 1, 2, 3]"
  by (simp add: upt_rec)

lemma dot44_get:
  assumes "dot a b = Inr c" "shape a = [4, 4]" "shape b = [4, 4]" "r < 4" "q < 4"
  shows "get c [r, q] = get a [r, 0] * get b [0, q] + get a [r, 1] * get b [1, q]
                      + get a [r, 2] * get b [2, q] + get a [r, 3] * get b [3, q]"
proof -
  have "c = tabulate [4, 4] (\<lambda>idx. sum_list (map (\<lambda>k. get a (take 1 idx @ [k]) *
            get b (take 0 (drop 1 idx) @ [k, last idx])) [0..<4]))"
    using assms(1,2,3) by (simp add: dot_def ndim_def Let_def)
  then show ?thesis using assms(4,5) by (simp add: get_tabulate upt4)
qed

lemma local_col:
  assumes "shape Ri = [3, 3]" "shape d = [3]" "wf_nd d"
    and "reshape d [3, 1] = Inr t" "hstack [Ri, t] = Inr h" "with_zeros h = Inr L" "k < 4"
  shows "get L [k, 3] = (if k < 3 then get d [k] else 1)"
proof -
  have t: "t = NDArray [3, 1] (flat d)"
    using assms(4) by (auto simp: reshape_def Let_def split: if_splits)
  have h: "h = tabulate [3, 4] (pick [Ri, t] 1)"
    using assms(5,1) by (simp add: np_defs t)
  have L: "L = tabulate [4, 4] (pick [h, NDArray [1, 4] [0, 0, 0, 1]] 0)"
    using assms(6) by (simp add: np_defs h)
  show ?thesis
  proof (cases "k < 3")
    case True
    then have "get L [k, 3] = get h [k, 3]"
      using assms(7) by (simp add: L get_tabulate) (simp add: h)
    also have "\<dots> = get t [k, 0]"
      using True by (simp add: h get_tabulate assms(1)) (simp add: t)
    also have "\<dots> = get d [k]"
      using assms(2) by (simp add: t get_def)
    finally show ?thesis using True by simp
  next
    case False
    then have "k = 3" using assms(7) by simp
    then show ?thesis
      by (simp add: L get_tabulate) (simp add: h get_def)
  qed
qed

lemma local_child_col:
  assumes "shape Rv = [B, 3, 3]" "shape Jv = [Kj, 3]" "i < B" "i < Kj" "p < Kj" "k < 4"
    and "local_child Rv Jv i p = Inr L"
  shows "get L [k, 3] = (if k < 3 then get Jv [i, k] - get Jv [p, k] else 1)"
proof -
  obtain Ri Ji Jp d t h where s: "getitem Rv [At i] = Inr Ri"
      "getitem Jv [At i, Slice 0 None] = Inr Ji" "getitem Jv [At p, Slice 0 None] = Inr Jp"
      "bop (-) Ji Jp = Inr d" "reshape d [3, 1] = Inr t" "hstack [Ri, t] = Inr h"
      "with_zeros h = Inr L"
    using assms(7) by (auto simp: local_child_def bnd_eq_Inr)
  have Ri: "shape Ri = [3, 3]" using getitem_Inr[OF s(1)] assms(1) by simp
  have Ji: "Ji = tabulate [3] (\<lambda>idx. get Jv (ix_src [At i, Slice 0 None] idx))"
    and Jp: "Jp = tabulate [3] (\<lambda>idx. get Jv (ix_src [At p, Slice 0 None] idx))"
    using getitem_Inr[OF s(2)] getitem_Inr[OF s(3)] assms(2) by simp_all
  have d: "d = tabulate [3] (\<lambda>idx. get Ji (bidx [3] idx) - get Jp (bidx [3] idx))"
    using bop_Inr[OF s(4)] by (auto simp: Ji Jp bshape_def)
  have dk: "get d [k] = get Jv [i, k] - get Jv [p, k]" if "k < 3"
    using that by (simp add: d get_tabulate bidx_same) (simp add: Ji Jp get_tabulate)
  have "shape d = [3]" "wf_nd d" by (simp_all add: d)
  from local_col[OF Ri this s(5,6,7) assms(6)] dk show ?thesis by simp
qed

lemma local_root_col:
  assumes "shape Rv = [B, 3, 3]" "shape Jv = [Kj, 3]" "k < 4"
    and "local_root Rv Jv = Inr L"
  shows "get L [k, 3] = (if k < 3 then get Jv [0, k] else 1)"
proof -
  obtain R0 J0 t h where s: "getitem Rv [At 0] = Inr R0"
      "getitem Jv [At 0, Slice 0 None] = Inr J0"
      "reshape J0 [3, 1] = Inr t" "hstack [R0, t] = Inr h" "with_zeros h = Inr L"
    using assms(4) by (auto simp: local_root_def bnd_eq_Inr)
  have R0: "shape R0 = [3, 3]" using getitem_Inr[OF s(1)] assms(1) by simp
  have J0: "J0 = tabulate [3] (\<lambda>idx. get Jv (ix_src [At 0, Slice 0 None] idx))"
    using getitem_Inr[OF s(2)] assms(2) by simp
  have dk: "get J0 [k] = get Jv [0, k]" if "k < 3"
    using that by (simp add: J0 get_tabulate)
  have "shape J0 = [3]" "wf_nd J0" by (simp_all add: J0)
  from local_col[OF R0 this s(3,4,5) assms(3)] dk show ?thesis by simp
qed

lemma kin_step_other_row:
  assumes "kin_step par Rv Jv i G = Inr G'" "shape G = K # ds" "j < K" "j \<noteq> i"
  shows "getitem G' [At j] = getitem G [At j] \<and> shape G' = K # ds"
proof -
  obtain x where x: "setitem0 G i x = Inr G'"
    using assms(1) by (auto simp: kin_step_rhs bnd_eq_Inr)
  from setitem0_Inr[OF x] assms(2)
  have G': "G' = tabulate (K # ds)
      (\<lambda>idx. if hd idx = i then get x (bidx (shape x) (tl idx)) else get G idx)"
    by auto
  have "tabulate ds (\<lambda>idx. get G' (j # idx)) = tabulate ds (\<lambda>idx. get G (j # idx))"
    by (rule tabulate_cong) (simp add: G' get_tabulate assms(3,4))
  then show ?thesis
    using getitem_row[of G' K ds j] getitem_row[OF assms(2,3)] assms(3) by (simp add: G')
qed

lemma kin_loop_other_row:
  assumes "kin_loop par Rv Jv js G = Inr G'" "shape G = K # ds" "j < K" "j \<notin> set js"
  shows "getitem G' [At j] = getitem G [At j]"
  using assms
proof (induction js arbitrary: G)
  case Nil
  then show ?case by simp
next
  case (Cons i js)
  then obtain G1 where G1: "kin_step par Rv Jv i G = Inr G1" "kin_loop par Rv Jv js G1 = Inr G'"
    by (auto simp: bnd_eq_Inr)
  have "j \<noteq> i" "j \<notin> set js" using Cons.prems(4) by auto
  from kin_step_other_row[OF G1(1) Cons.prems(2,3) this(1)] Cons.IH[OF G1(2) _ Cons.prems(3) this(2)]
  show ?case by simp
qed

lemma get_np_empty:
  assumes "valid_idx sh idx"
  shows "get (np_empty g sh) idx = g (ravel sh idx)"
  using ravel_lt[OF assms] by (simp add: get_def np_empty_def)

lemma world_transforms_unordered:
  assumes wt: "world_transforms g par K Rv Jv = Inr G"
    and par: "par 1 = Some 2" "par 2 = Some 0" and K: "2 < K"
    and sh: "shape Rv = [B, 3, 3]" "shape Jv = [Kj, 3]" "2 < B" "2 < Kj"
    and J0: "\<forall>r<3. \<forall>k<3. get Jv [r, k] = 0"
  shows "\<exists>x y. getitem G [At 1] = Inr x \<and> recurrence_rhs par Rv Jv G 1 = Inr y \<and>
           get x [0, 3] = g 35 \<and> get y [0, 3] = 0"
proof -
  define E where "E = np_empty g [K, 4, 4]"
  have shE: "shape E = [K, 4, 4]" by (simp add: E_def np_empty_def)
  obtain L0 G0 where s: "local_root Rv Jv = Inr L0" "setitem0 E 0 L0 = Inr G0"
      "kin_loop par Rv Jv [1..<K] G0 = Inr G"
    using wt by (auto simp: world_transforms_def Let_def bnd_eq_Inr E_def)
  have L0: "shape L0 = [4, 4]" "wf_nd L0" using local_root_shape[OF s(1)] by simp_all
  have K0: "0 < K" "1 < K" using K by simp_all
  have par': "par (Suc 0) = Some 2" using par(1) by simp
  have G0row: "getitem G0 [At j] = (if j = 0 then Inr L0 else getitem E [At j])" if "j < K" for j
    using getitem_setitem0(1)[OF shE K0(1) that L0 s(2)] .
  have shG0: "shape G0 = [K, 4, 4]"
    using getitem_setitem0(2)[OF shE K0(1) K0(1) L0 s(2)] .
  have up: "[1..<K] = 1 # 2 # [3..<K]"
    using K by (simp add: upt_conv_Cons numeral_3_eq_3)
  obtain G1 G2 where st: "kin_step par Rv Jv 1 G0 = Inr G1" "kin_step par Rv Jv 2 G1 = Inr G2"
      "kin_loop par Rv Jv [3..<K] G2 = Inr G"
    using s(3) unfolding up by (auto simp: bnd_eq_Inr)
  \<comment> \<open>joint 1 reads row 2 of the buffer, which nothing has written\<close>
  obtain x where x: "recurrence_rhs par Rv Jv G0 1 = Inr x" "setitem0 G0 1 x = Inr G1"
    using st(1) by (auto simp: kin_step_rhs bnd_eq_Inr)
  have xs: "shape x = [4, 4]" "wf_nd x" using recurrence_rhs_shape[OF x(1) shG0] by simp_all
  obtain Gp L1 where r1: "getitem G0 [At 2] = Inr Gp" "local_child Rv Jv 1 2 = Inr L1"
      "dot Gp L1 = Inr x"
    using x(1) by (auto simp: recurrence_rhs_def par par' bnd_eq_Inr)
  have Gp: "Gp = tabulate [4, 4] (\<lambda>idx. get E (2 # idx))"
    using r1(1) G0row[of 2] K getitem_row[OF shE, of 2] by simp
  have L1s: "shape L1 = [4, 4]" using local_child_shape[OF r1(2)] by simp
  have L1c: "get L1 [k, 3] = (if k < 3 then 0 else 1)" if "k < 4" for k
    using local_child_col[OF sh(1,2) _ _ _ that r1(2)] sh(3,4) J0 by simp
  have Gpk: "get Gp [0, k] = g (32 + k)" if "k < 4" for k
    using that K by (simp add: Gp get_tabulate E_def get_np_empty)
  have Gps: "shape Gp = [4, 4]" by (simp add: Gp)
  have x03: "get x [0, 3] = g 35"
    using dot44_get[OF r1(3) Gps L1s, of 0 3] by (simp add: L1c Gpk)
  have G1row: "getitem G1 [At j] = (if j = 1 then Inr x else getitem G0 [At j])" if "j < K" for j
    using getitem_setitem0(1)[OF shG0 K0(2) that xs x(2)] .
  have shG1: "shape G1 = [K, 4, 4]"
    using getitem_setitem0(2)[OF shG0 K0(2) K0(2) xs x(2)] .
  \<comment> \<open>joint 2 reads row 0\<close>
  obtain x2 where x2: "recurrence_rhs par Rv Jv G1 2 = Inr x2" "setitem0 G1 2 x2 = Inr G2"
    using st(2) by (auto simp: kin_step_rhs bnd_eq_Inr)
  have x2s: "shape x2 = [4, 4]" "wf_nd x2" using recurrence_rhs_shape[OF x2(1) shG1] by simp_all
  have "getitem G1 [At 0] = Inr L0" using G1row[of 0] G0row[of 0] K0 by simp
  then obtain L2 where r2: "local_child Rv Jv 2 0 = Inr L2" "dot L0 L2 = Inr x2"
    using x2(1) by (auto simp: recurrence_rhs_def par bnd_eq_Inr)
  have L2s: "shape L2 = [4, 4]" using local_child_shape[OF r2(1)] by simp
  have L2c: "get L2 [k, 3] = (if k < 3 then 0 else 1)" if "k < 4" for k
    using local_child_col[OF sh(1,2) _ _ _ that r2(1)] sh(3,4) J0 by simp
  have L0c: "get L0 [0, 3] = 0"
    using local_root_col[OF sh(1,2) _ s(1), of 0] J0 by simp
  have x203: "get x2 [0, 3] = 0"
    using dot44_get[OF r2(2) L0(1) L2s, of 0 3] by (simp add: L2c L0c)
  have G2row: "getitem G2 [At j] = (if j = 2 then Inr x2 else getitem G1 [At j])" if "j < K" for j
    using getitem_setitem0(1)[OF shG1 K that x2s x2(2)] .
  have shG2: "shape G2 = [K, 4, 4]"
    using getitem_setitem0(2)[OF shG1 K K x2s x2(2)] .
  \<comment> \<open>the rest of the loop leaves rows 1 and 2 alone\<close>
  have f1: "getitem G [At 1] = Inr x"
    using kin_loop_other_row[OF st(3) shG2 K0(2)] G2row[of 1] G1row[of 1] K0 by simp
  have f2: "getitem G [At 2] = Inr x2"
    using kin_loop_other_row[OF st(3) shG2 K] G2row[of 2] K by simp
  obtain y where y: "dot x2 L1 = Inr y"
    using dot44[OF x2s(1) L1s] by blast
  have rhs: "recurrence_rhs par Rv Jv G 1 = Inr y"
    using f2 r1(2) y by (simp add: recurrence_rhs_def par par')
  have "get y [0, 3] = 0"
    using dot44_get[OF y x2s(1) L1s, of 0 3] by (simp add: L1c x203)
  then show ?thesis using f1 rhs x03 by blast
qed

lemma parents_first_reaches:
  assumes "parents_first par K"
  shows "i < K \<Longrightarrow> i \<le> n \<Longrightarrow> reaches_root par n i"
proof (induction n arbitrary: i)
  case 0
  then show ?case by simp
next
  case (Suc n)
  show ?case
  proof (cases "i = 0")
    case True
    then show ?thesis by simp
  next
    case False
    then have "i \<in> {1..<K}" using Suc.prems by simp
    then obtain p where p: "par i = Some p" "p < i"
      using assms unfolding parents_first_def by blast
    then have "reaches_root par n p" using Suc.prems by (intro Suc.IH) auto
    then show ?thesis using p by simp
  qed
qed

lemma parents_first_valid_tree:
  assumes "parents_first par K"
  shows "valid_tree par K"
proof -
  have "\<forall>i\<in>{1..<K}. \<exists>p<K. par i = Some p"
    using assms unfolding parents_first_def by (metis atLeastLessThan_iff less_trans)
  moreover have "\<forall>i<K. reaches_root par K i"
    using parents_first_reaches[OF assms] by simp
  ultimately show ?thesis by (simp add: valid_tree_def)
qed

lemma set13: "{1..<3::nat} = {1, 2}" "{Suc 0..<3::nat} = {Suc 0, 2}"
  by auto

lemma tree3_valid: "valid_tree tree3 3 \<and> \<not> parents_first tree3 3"
proof -
  have "\<forall>i<3::nat. reaches_root tree3 3 i"
  proof (intro allI impI)
    fix i :: nat assume "i < 3"
    then consider "i = 0" | "i = 1" | "i = 2" by linarith
    then show "reaches_root tree3 3 i"
      by cases (simp_all add: tree3_def numeral_3_eq_3)
  qed
  then show ?thesis
    by (simp add: valid_tree_def parents_first_def set13 tree3_def)
qed

lemma chain3_first: "parents_first chain3 3"
  by (simp add: parents_first_def set13 chain3_def)

lemma world3_ok:
  assumes "\<forall>i\<in>{1..<3}. \<exists>p<3. par i = Some p"
  shows "\<exists>G. world_transforms g par 3 rot3 (zeros [3, 3]) = Inr G"
  using world_transforms_ok[of rot3 3 "zeros [3, 3]" 3 3 par g] assms
  by (auto simp: rot3_def zeros_def)

lemma tree3_breaks_recurrence:
  "\<exists>G. world_transforms g35 tree3 3 rot3 (zeros [3, 3]) = Inr G \<and>
       \<not> satisfies_recurrence tree3 3 rot3 (zeros [3, 3]) G"
proof -
  obtain G where G: "world_transforms g35 tree3 3 rot3 (zeros [3, 3]) = Inr G"
    using world3_ok[of tree3 g35] by (auto simp: set13 tree3_def)
  have "\<forall>r<3. \<forall>k<3. get (zeros [3, 3]) [r, k] = 0"
    by (simp add: zeros_def get_tabulate)
  from world_transforms_unordered[OF G _ _ _ _ _ _ _ this, of 3 3]
  obtain x y where xy: "getitem G [At 1] = Inr x" "recurrence_rhs tree3 rot3 (zeros [3, 3]) G 1 = Inr y"
      "get x [0, 3] = g35 35" "get y [0, 3] = 0"
    by (auto simp: tree3_def rot3_def zeros_def)
  then have "x \<noteq> y" by (auto simp: g35_def)
  then have "getitem G [At 1] \<noteq> recurrence_rhs tree3 rot3 (zeros [3, 3]) G 1"
    using xy by simp
  then have "\<not> satisfies_recurrence tree3 3 rot3 (zeros [3, 3]) G"
    by (auto simp: satisfies_recurrence_def)
  then show ?thesis using G by blast
qed

lemma shape_zeros [simp]: "shape (zeros sh) = sh"
  by (simp add: zeros_def)

lemma shape_ones [simp]: "shape (ones sh) = sh"
  by (simp add: ones_def)

lemma get_zeros: "valid_idx sh idx \<Longrightarrow> get (zeros sh) idx = 0"
  by (simp add: zeros_def get_tabulate)

lemma get_ones: "valid_idx sh idx \<Longrightarrow> get (ones sh) idx = 1"
  by (simp add: ones_def get_tabulate)

lemma sum_list_upt_zero: "(\<And>k. k < n \<Longrightarrow> f k = (0::real)) \<Longrightarrow> sum_list (map f [0..<n]) = 0"
  by (induction n) simp_all

lemma sum_list_upt_single:
  assumes "c < n" "\<And>k. k < n \<Longrightarrow> k \<noteq> c \<Longrightarrow> f k = (0::real)"
  shows "sum_list (map f [0..<n]) = f c"
  using assms
proof (induction n)
  case 0
  then show ?case by simp
next
  case (Suc n)
  show ?case
  proof (cases "c = n")
    case True
    then have "sum_list (map f [0..<n]) = 0"
      using Suc.prems(2) by (intro sum_list_upt_zero) simp
    then show ?thesis using True by simp
  next
    case False
    then have "sum_list (map f [0..<n]) = f c"
      using Suc.prems by (intro Suc.IH) simp_all
    moreover have "f n = 0" using Suc.prems(2)[of n] False by simp
    ultimately show ?thesis by simp
  qed
qed

text \<open>With zero blend bases and a zero template, the blended vertices are zero.\<close>

lemma shape_blend_zero:
  assumes "shapedirs s = zeros [N, 3, 10]" "v_template s = zeros [N, 3]" "shape (beta s) = [10]"
    and "shape_blend s = Inr x" "i < N" "k < 3"
  shows "shape x = [N, 3]" "get x [i, k] = 0"
proof -
  define sd where "sd = tabulate [N, 3] (\<lambda>idx. sum_list (map (\<lambda>k. get (zeros [N, 3, 10]) (idx @ [k]) *
      get (beta s) [k]) [0..<10]))"
  have d: "dot (shapedirs s) (beta s) = Inr sd"
    using assms(1,3) by (simp add: dot_def ndim_def zeros_def sd_def)
  have x: "x = tabulate [N, 3] (\<lambda>idx. get sd (bidx [N, 3] idx) + get (zeros [N, 3]) (bidx [N, 3] idx))"
    using assms(4) by (simp add: shape_blend_def d assms(2) bop_def bshape_def sd_def zeros_def)
  show "shape x = [N, 3]" by (simp add: x)
  have v: "valid_idx [N, 3] [i, k]" using assms(5,6) by simp
  have "get sd [i, k] = 0"
    unfolding sd_def using assms(5,6)
    by (simp add: get_tabulate[OF v]) (rule sum_list_upt_zero, simp add: get_zeros)
  then show "get x [i, k] = 0"
    by (simp add: x get_tabulate[OF v] bidx_same[OF v] get_zeros[OF v])
qed

lemma rest_joints_zero:
  assumes "J_regressor s = zeros [K, N]" "shape x = [N, 3]" "dot (J_regressor s) x = Inr Jv"
    and "r < K" "k < 3"
  shows "shape Jv = [K, 3]" "get Jv [r, k] = 0"
proof -
  have Jv: "Jv = tabulate [K, 3] (\<lambda>idx. sum_list (map (\<lambda>n. get (zeros [K, N]) (take 1 idx @ [n]) *
      get x (take 0 (drop 1 idx) @ [n, last idx])) [0..<N]))"
    using assms(1,2,3) by (simp add: dot_def ndim_def zeros_def Let_def)
  show "shape Jv = [K, 3]" by (simp add: Jv)
  have v: "valid_idx [K, 3] [r, k]" using assms(4,5) by simp
  show "get Jv [r, k] = 0"
    using assms(4) by (simp add: Jv get_tabulate[OF v]) (rule sum_list_upt_zero, simp add: get_zeros)
qed

lemma pose_blend_zero:
  assumes "posedirs s = zeros [N, 3, 207]" "shape Rv = [24, 3, 3]" "shape x = [N, 3]"
    and "pose_blend s x Rv = Inr vp" "i < N" "k < 3"
  shows "shape vp = [N, 3]" "get vp [i, k] = get x [i, k]"
proof -
  obtain l where l: "shape l = [207]" "dot (posedirs s) l = Inr (tabulate [N, 3]
      (\<lambda>idx. sum_list (map (\<lambda>k. get (zeros [N, 3, 207]) (idx @ [k]) * get l [k]) [0..<207])))"
      "bnd (dot (posedirs s) l) (bop (+) x) = Inr vp"
  proof -
    have n: "shape_at Rv 0 = Inr 24" using assms(2) by (simp add: np_defs)
    obtain ic where ic: "broadcast_to (expand_dims0 (eye 3)) [int 24 - 1, 3, 3] = Inr ic"
        "shape ic = [23, 3, 3]"
      by (simp add: np_defs)
    obtain R1 where R1: "getitem Rv [Slice 1 None] = Inr R1" "shape R1 = [23, 3, 3]"
      using assms(2) by (simp add: np_defs)
    obtain d where d: "bop (-) R1 ic = Inr d" "shape d = [23, 3, 3]"
      using R1(2) ic(2) by (simp add: np_defs)
    have sl: "shape (ravel_nd d) = [207]" using d(2) by (simp add: ravel_nd_def nd_size_def)
    have "dot (posedirs s) (ravel_nd d) = Inr (tabulate [N, 3]
      (\<lambda>idx. sum_list (map (\<lambda>k. get (zeros [N, 3, 207]) (idx @ [k]) * get (ravel_nd d) [k]) [0..<207])))"
      using sl by (simp add: assms(1) dot_def ndim_def zeros_def)
    moreover have "bnd (dot (posedirs s) (ravel_nd d)) (bop (+) x) = Inr vp"
      using assms(4) by (simp only: pose_blend_def Let_def n ic R1 d bnd_Inr)
    ultimately show ?thesis using that sl by blast
  qed
  define pd where "pd = tabulate [N, 3]
      (\<lambda>idx. sum_list (map (\<lambda>k. get (zeros [N, 3, 207]) (idx @ [k]) * get l [k]) [0..<207]))"
  have vp: "vp = tabulate [N, 3] (\<lambda>idx. get x (bidx [N, 3] idx) + get pd (bidx [N, 3] idx))"
    using l(3) unfolding l(2) pd_def[symmetric]
    by (simp add: bop_def bshape_def assms(3) pd_def)
  show "shape vp = [N, 3]" by (simp add: vp)
  have v: "valid_idx [N, 3] [i, k]" using assms(5,6) by simp
  have "get pd [i, k] = 0"
    unfolding pd_def using assms(5,6)
    by (simp add: get_tabulate[OF v]) (rule sum_list_upt_zero, simp add: get_zeros)
  then show "get vp [i, k] = get x [i, k]"
    by (simp add: vp get_tabulate[OF v] bidx_same[OF v])
qed

lemma rest_pose_correction_zero:
  assumes "shape G = [24, 4, 4]" "shape Jv = [24, 3]"
    and "\<And>r k. r < 24 \<Longrightarrow> k < 3 \<Longrightarrow> get Jv [r, k] = 0"
    and "rest_pose_correction G Jv = Inr G'" "j < 24" "r < 4" "q < 4"
  shows "shape G' = [24, 4, 4]" "get G' [j, r, q] = get G [j, r, q]"
proof -
  define h where "h = tabulate [24, 4] (pick [Jv, zeros [24, 1]] 1)"
  have h: "hstack [Jv, zeros [24, 1]] = Inr h"
    using assms(2) by (simp add: np_defs h_def)
  define Jh where "Jh = NDArray [24, 4, 1] (flat h)"
  have Jh: "reshape h [24, 4, 1] = Inr Jh"
    by (simp add: reshape_def nd_size_def h_def Jh_def)
  define X where "X = tabulate [24, 4, 1] (\<lambda>idx. sum_list (map
      (\<lambda>k. get G (bidx [24] (take 1 idx) @ [idx ! 1, k]) * get Jh (bidx [24] (take 1 idx) @ [k, idx ! Suc (Suc 0)]))
      [0..<4]))"
  have X: "matmul G Jh = Inr X"
    using assms(1) by (simp add: matmul_def ndim_def bshape_def Jh_def X_def Let_def)
  have sX: "shape X = [24, 4, 1]" by (simp add: X_def)
  define P where "P = tabulate [24, 4, 4] (pick [zeros [24, 4, 3], X] 2)"
  have P: "pack X = Inr P"
    by (simp add: np_defs X_def P_def)
  have G': "G' = tabulate [24, 4, 4] (\<lambda>idx. get G (bidx [24, 4, 4] idx) - get P (bidx [24, 4, 4] idx))"
    using assms(4) unfolding rest_pose_correction_def
    by (simp only: h Jh X P bnd_Inr) (simp add: bop_def bshape_def assms(1) P_def)
  show "shape G' = [24, 4, 4]" by (simp add: G')
  have hz: "get h [j, k] = 0" if "k < 4" for k
  proof (cases "k < 3")
    case True
    then show ?thesis using assms(5) by (simp add: h_def get_tabulate assms(2,3))
  next
    case False
    then have "k = 3" using that by simp
    then show ?thesis using assms(5) by (simp add: h_def get_tabulate assms(2) get_zeros)
  qed
  have Jhz: "get Jh [j, k, 0] = 0" if "k < 4" for k
    using hz[OF that] by (simp add: Jh_def get_def h_def)
  have b1: "bidx [24] [j] = [j]" using assms(5) by (simp add: bidx_same)
  have Xz: "get X [j, r, 0] = 0"
    using assms(5,6) by (simp add: X_def get_tabulate b1 upt4 Jhz)
  have Pz: "get P [j, r, q] = 0"
  proof (cases "q < 3")
    case True
    then show ?thesis using assms(5,6)
      by (simp add: P_def get_tabulate get_zeros)
  next
    case False
    then have "q = 3" using assms(7) by simp
    then show ?thesis using assms(5,6) Xz sX
      by (simp add: P_def get_tabulate)
  qed
  have v: "valid_idx [24, 4, 4] [j, r, q]" using assms(5,6,7) by simp
  show "get G' [j, r, q] = get G [j, r, q]"
    by (simp add: G' get_tabulate[OF v] bidx_same[OF v] Pz)
qed

lemma skinning_joint1:
  assumes "shape (weights s) = [1, 24]"
    and "\<And>j. j < 24 \<Longrightarrow> get (weights s) [0, j] = (if j = 1 then 1 else 0)"
    and "shape G = [24, 4, 4]" "shape vp = [1, 3]"
    and "\<And>k. k < 3 \<Longrightarrow> get vp [0, k] = 0"
    and "skinning s G vp = Inr v"
  shows "shape v = [1, 3]" "get v [0, 0] = get G [1, 0, 3]"
proof -
  define T where "T = tabulate [1, 4, 4] (\<lambda>idx. sum_list (map
      (\<lambda>k. get (weights s) (hd idx # k # tl (take 1 idx)) * get G (k # drop 1 idx)) [0..<24]))"
  have T: "tensordot_1_0 (weights s) G = Inr T"
    using assms(1,3) by (simp add: tensordot_1_0_def ndim_def T_def Let_def)
  have n: "shape_at vp 0 = Inr 1" using assms(4) by (simp add: np_defs)
  define h where "h = tabulate [1, 4] (pick [vp, ones [1, 1]] 1)"
  have h: "hstack [vp, ones [1, 1]] = Inr h"
    using assms(4) by (simp add: np_defs h_def)
  define rh where "rh = NDArray [1, 4, 1] (flat h)"
  have rh: "reshape h [- 1, 4, 1] = Inr rh"
    by (simp add: reshape_def nd_size_def h_def rh_def)
  define X where "X = tabulate [1, 4, 1] (\<lambda>idx. sum_list (map
      (\<lambda>k. get T (bidx [1] (take 1 idx) @ [idx ! 1, k]) *
           get rh (bidx [1] (take 1 idx) @ [k, idx ! Suc (Suc 0)])) [0..<4]))"
  have X: "matmul T rh = Inr X"
    by (simp add: matmul_def ndim_def bshape_def rh_def X_def T_def Let_def)
  define y where "y = NDArray [1, 4] (flat X)"
  have y: "reshape X [- 1, 4] = Inr y"
    by (simp add: reshape_def nd_size_def X_def y_def)
  have v: "v = tabulate [1, 3] (\<lambda>idx. get y (ix_src [Slice 0 None, Slice 0 (Some 3)] idx))"
    using assms(6) unfolding skinning_def
    by (simp only: T n h rh X y bnd_Inr) (simp add: getitem_def y_def)
  show "shape v = [1, 3]" by (simp add: v)
  have hk: "get h [0, k] = (if k < 3 then 0 else 1)" if "k < 4" for k
  proof (cases "k < 3")
    case True
    then show ?thesis by (simp add: h_def get_tabulate assms(4,5))
  next
    case False
    then have "k = 3" using that by simp
    then show ?thesis by (simp add: h_def get_tabulate assms(4) get_ones)
  qed
  have rhk: "get rh [0, k, 0] = (if k < 3 then 0 else 1)" if "k < 4" for k
    using hk[OF that] by (simp add: rh_def get_def h_def)
  have T3: "get T [0, 0, 3] = get G [1, 0, 3]"
  proof -
    have "get T [0, 0, 3] = sum_list (map (\<lambda>k. get (weights s) [0, k] * get G [k, 0, 3]) [0..<24])"
      by (simp add: T_def get_tabulate)
    also have "\<dots> = get (weights s) [0, 1] * get G [1, 0, 3]"
      by (rule sum_list_upt_single) (simp_all add: assms(2))
    finally show ?thesis by (simp add: assms(2))
  qed
  have "get X [0, 0, 0] = get T [0, 0, 3]"
    by (simp add: X_def get_tabulate bidx_def upt4 rhk)
  moreover have "get v [0, 0] = get X [0, 0, 0]"
    by (simp add: v get_tabulate) (simp add: y_def get_def X_def)
  ultimately show "get v [0, 0] = get G [1, 0, 3]" using T3 by simp
qed

text \<open>
  A rig whose joint 1 hangs on joint 2: with zero blend bases, a zero template and joint
  regressor, and vertex 0 bound to joint 1, the first coordinate of vertex 0 is what the
  uninitialised buffer holds at position 35, plus the translation.
\<close>

lemma unordered_rig_vertex:
  assumes dims: "rig_dims s 24 1"
    and par: "parent s 1 = Some 2" "parent s 2 = Some 0"
    and z: "J_regressor s = zeros [24, 1]" "v_template s = zeros [1, 3]"
      "shapedirs s = zeros [1, 3, 10]" "posedirs s = zeros [1, 3, 207]"
    and w: "\<And>j. j < 24 \<Longrightarrow> get (weights s) [0, j] = (if j = 1 then 1 else 0)"
    and prm: "shape (beta s) = [10]" "nd_size (pose s) = 72"
    and up: "update g s = (Inr u, s')"
  shows "\<exists>V. verts s' = Some V \<and> shape V = [1, 3] \<and> get V [0, 0] = g 35 + flat (trans s) ! 0"
proof -
  obtain x Jv Rv v V where d: "shape_blend s = Inr x" "dot (J_regressor s) x = Inr Jv"
      "joint_rotations s = Inr Rv" "skinned_vertices g s x Jv Rv = Inr v"
      "translate s v = Inr V" "verts s' = Some V"
    using update_Inr_decomp[OF up] by blast
  have xs: "shape x = [1, 3]" and x0: "get x [0, k] = 0" if "k < 3" for k
    using shape_blend_zero[OF z(3,2) prm(1) d(1), of 0 k] that by simp_all
  have xs': "shape x = [1, 3]" using xs[of 0] by simp
  have Js: "shape Jv = [24, 3]" and J0: "get Jv [r, k] = 0" if "r < 24" "k < 3" for r k
    using rest_joints_zero[OF z(1) xs' d(2) that] by simp_all
  have Js': "shape Jv = [24, 3]" using Js[of 0 0] by simp
  have Rs: "shape Rv = [24, 3, 3]"
    using joint_rotations_ok[of s 24] prm(2) d(3) by auto
  obtain vp K G G' where sv: "pose_blend s x Rv = Inr vp" "shape_at (kintree_table s) 1 = Inr K"
      "world_transforms g (parent s) K Rv Jv = Inr G" "rest_pose_correction G Jv = Inr G'"
      "skinning s G' vp = Inr v"
    using d(4) by (auto simp: skinned_vertices_def bnd_eq_Inr)
  have K: "K = 24" using sv(2) dims by (simp add: rig_dims_def shape_at_def ndim_def)
  have vps: "shape vp = [1, 3]" and vp0: "get vp [0, k] = 0" if "k < 3" for k
    using pose_blend_zero[OF z(4) Rs xs' sv(1), of 0 k] x0 that by simp_all
  have vps': "shape vp = [1, 3]" using vps[of 0] by simp
  have Gs: "shape G = [24, 4, 4]"
    using world_transforms_ok[OF Rs Js', of 24 "parent s" g] dims sv(3)
    by (auto simp: rig_dims_def K)
  obtain x1 where x1: "getitem G [At 1] = Inr x1" "get x1 [0, 3] = g 35"
    using world_transforms_unordered[OF sv(3)[unfolded K] par _ Rs Js'] J0 by auto
  have G13: "get G [1, 0, 3] = g 35"
    using getitem_get[OF x1(1), of "[0, 3]"] getitem_Inr[OF x1(1)] Gs x1(2) by simp
  have G's: "shape G' = [24, 4, 4]" and G'v: "get G' [1, 0, 3] = get G [1, 0, 3]"
    using rest_pose_correction_zero[OF Gs Js' J0 sv(4), of 1 0 3] by simp_all
  have ws: "shape (weights s) = [1, 24]" using dims by (simp add: rig_dims_def)
  have vs: "shape v = [1, 3]" and v00: "get v [0, 0] = get G' [1, 0, 3]"
    using skinning_joint1[OF ws w G's vps' vp0 sv(5)] by simp_all
  have "shape V = [1, 3]" "get V [0, 0] = get v [0, 0] + flat (trans s) ! 0"
    using translate_get[OF d(5) vs] by simp_all
  then show ?thesis using d(6) v00 G'v G13 by simp
qed

lemma parents_hang24:
  "bnd (id_to_col_loop hang24_kintree [0..<24] Map.empty)
       (\<lambda>idc. parent_loop hang24_kintree idc [1..<24] Map.empty) = Inr hang24"
  unfolding upt24 upt24'
  by (simp add: kintree_key_def hang24_kintree_def get_def ndim_def hang24_def)

lemma hang24_ok: "\<forall>i\<in>{1..<24}. \<exists>p<24. hang24 i = Some p"
proof -
  have "{1..<24::nat} = set [1..<24]" by simp
  then show ?thesis unfolding upt24' by (simp add: hang24_def)
qed

lemma SMPLModel_init_ok:
  assumes kt: "shape (prm_kintree_table prm) = [2, 24]"
    and par: "bnd (id_to_col_loop (prm_kintree_table prm) [0..<24] Map.empty)
       (\<lambda>idc. parent_loop (prm_kintree_table prm) idc [1..<24] Map.empty) = Inr par"
      "\<forall>i\<in>{1..<24}. \<exists>p<24. par i = Some p"
    and sh: "shape (prm_v_template prm) = [N, 3]" "shape (prm_shapedirs prm) = [N, 3, 10]"
      "shape (prm_posedirs prm) = [N, 3, 207]" "shape (prm_J_regressor prm) = [24, N]"
      "shape (prm_weights prm) = [N, 24]"
  shows "\<exists>s. SMPLModel_init g prm = Inr s \<and> rig_dims s 24 N \<and>
       J_regressor s = prm_J_regressor prm \<and> weights s = prm_weights prm \<and>
       posedirs s = prm_posedirs prm \<and> v_template s = prm_v_template prm \<and>
       shapedirs s = prm_shapedirs prm \<and> kintree_table s = prm_kintree_table prm \<and>
       parent s = par \<and> pose s = zeros [24, 3] \<and> beta s = zeros [10] \<and> trans s = zeros [3]"
proof -
  define pre :: SMPLModel where "pre =
     \<lparr>J_regressor = prm_J_regressor prm, weights = prm_weights prm,
      posedirs = prm_posedirs prm, v_template = prm_v_template prm,
      shapedirs = prm_shapedirs prm, faces = prm_f prm,
      kintree_table = prm_kintree_table prm, parent = par,
      pose_shape = [24, 3], beta_shape = [10], trans_shape = [3],
      pose = zeros [24, 3], beta = zeros [10], trans = zeros [3],
      verts = None, J = None, R = None\<rparr>"
  have K: "shape_at (prm_kintree_table prm) 1 = Inr 24"
    by (simp add: kt shape_at_def ndim_def)
  have dims: "rig_dims pre 24 N"
    using par(2) by (simp add: rig_dims_def pre_def sh kt)
  have "shape (beta pre) = [10]" "nd_size (pose pre) = 72" "nd_size (trans pre) = 3"
    by (simp_all add: pre_def nd_size_def)
  from update_ok[OF dims this] obtain s' where s': "update g pre = (Inr (), s')"
    by blast
  have fr: "s' = pre\<lparr>J := J s', R := R s', verts := verts s'\<rparr>"
    using update_frame[OF s'] .
  have "rig_dims s' 24 N" using dims by (subst fr) (simp add: rig_dims_def)
  moreover have "J_regressor s' = prm_J_regressor prm" "weights s' = prm_weights prm"
      "posedirs s' = prm_posedirs prm" "v_template s' = prm_v_template prm"
      "shapedirs s' = prm_shapedirs prm" "kintree_table s' = prm_kintree_table prm"
      "parent s' = par" "pose s' = zeros [24, 3]" "beta s' = zeros [10]" "trans s' = zeros [3]"
    by (subst fr, simp add: pre_def)+
  moreover have "SMPLModel_init g prm = Inr s'"
  proof -
    obtain idc where idc:
      "id_to_col_loop (prm_kintree_table prm) [0..<24] Map.empty = Inr idc"
      "parent_loop (prm_kintree_table prm) idc [1..<24] Map.empty = Inr par"
      using par(1) unfolding bnd_eq_Inr by blast
    have "SMPLModel_init g prm =
        (case update g pre of (Inl e, s') \<Rightarrow> Inl e | (Inr u, s') \<Rightarrow> Inr s')"
      unfolding SMPLModel_init_def pre_def by (simp only: K bnd_Inr idc)
    then show ?thesis by (simp add: s')
  qed
  ultimately show ?thesis by blast
qed

lemma hang24_model_facts:
  "SMPLModel_init g0 hang24_params = Inr hang24_model" "rig_dims hang24_model 24 1"
  "J_regressor hang24_model = zeros [24, 1]"
  "weights hang24_model = tabulate [1, 24] (\<lambda>idx. if idx ! 1 = 1 then 1 else 0)"
  "posedirs hang24_model = zeros [1, 3, 207]" "v_template hang24_model = zeros [1, 3]"
  "shapedirs hang24_model = zeros [1, 3, 10]" "kintree_table hang24_model = hang24_kintree"
  "parent hang24_model = hang24" "pose hang24_model = zeros [24, 3]"
  "beta hang24_model = zeros [10]" "trans hang24_model = zeros [3]"
proof -
  have "\<exists>s. SMPLModel_init g0 hang24_params = Inr s \<and> rig_dims s 24 1 \<and>
       J_regressor s = prm_J_regressor hang24_params \<and> weights s = prm_weights hang24_params \<and>
       posedirs s = prm_posedirs hang24_params \<and> v_template s = prm_v_template hang24_params \<and>
       shapedirs s = prm_shapedirs hang24_params \<and>
       kintree_table s = prm_kintree_table hang24_params \<and>
       parent s = hang24 \<and> pose s = zeros [24, 3] \<and> beta s = zeros [10] \<and> trans s = zeros [3]"
    using parents_hang24 hang24_ok
    by (intro SMPLModel_init_ok) (simp_all add: hang24_params_def hang24_kintree_def)
  then show "SMPLModel_init g0 hang24_params = Inr hang24_model" "rig_dims hang24_model 24 1"
  "J_regressor hang24_model = zeros [24, 1]"
  "weights hang24_model = tabulate [1, 24] (\<lambda>idx. if idx ! 1 = 1 then 1 else 0)"
  "posedirs hang24_model = zeros [1, 3, 207]" "v_template hang24_model = zeros [1, 3]"
  "shapedirs hang24_model = zeros [1, 3, 10]" "kintree_table hang24_model = hang24_kintree"
  "parent hang24_model = hang24" "pose hang24_model = zeros [24, 3]"
  "beta hang24_model = zeros [10]" "trans hang24_model = zeros [3]"
    by (auto simp: hang24_model_def hang24_params_def)
qed

lemma hang24_vertex:
  assumes "nd_size t = 3"
  shows "\<exists>V. fst (set_params g hang24_model None None (Some t)) = Inr (Some V) \<and>
           get V [0, 0] = g 35 + flat t ! 0"
proof -
  define a where "a = hang24_model\<lparr>trans := t\<rparr>"
  have sp: "set_params g hang24_model None None (Some t) =
      (case update g a of (Inl e, s') \<Rightarrow> (Inl e, s') | (Inr u, s') \<Rightarrow> (Inr (verts s'), s'))"
    by (simp add: set_params_def a_def)
  have dims: "rig_dims a 24 1" using hang24_model_facts(2) by (simp add: a_def)
  have b: "shape (beta a) = [10]" "nd_size (pose a) = 72" "nd_size (trans a) = 3"
    using assms by (simp_all add: a_def hang24_model_facts nd_size_def)
  obtain s' where s': "update g a = (Inr (), s')"
    using update_ok[OF dims b] by blast
  have w: "get (weights a) [0, j] = (if j = 1 then 1 else 0)" if "j < 24" for j
    using that by (simp add: a_def hang24_model_facts get_tabulate)
  have "\<exists>V. verts s' = Some V \<and> shape V = [1, 3] \<and> get V [0, 0] = g 35 + flat (trans a) ! 0"
    by (rule unordered_rig_vertex[OF dims _ _ _ _ _ _ w b(1,2) s'])
       (simp_all add: a_def hang24_model_facts hang24_def)
  moreover have "trans a = t" by (simp add: a_def)
  ultimately show ?thesis by (auto simp: sp s')
qed

lemma hang24_tree: "valid_tree hang24 24 \<and> \<not> parents_first hang24 24"
proof -
  have r0: "reaches_root hang24 n 0" for n by (cases n) simp_all
  have r2: "reaches_root hang24 (Suc n) 2" for n using r0 by (simp add: hang24_def)
  have "\<forall>i<24::nat. reaches_root hang24 24 i"
  proof (intro allI impI)
    fix i :: nat assume i: "i < 24"
    show "reaches_root hang24 24 i"
    proof (cases "i = 0 \<or> i = 1")
      case True
      then show ?thesis using r0[of 24] r2[of 22] by (auto simp: hang24_def eval_nat_numeral)
    next
      case False
      then have "2 \<le> i" by simp
      then have "i \<in> set [2..<24]" using i by (simp only: set_upt atLeastLessThan_iff)
      moreover have "\<forall>k\<in>set [2..<24]. hang24 k = Some 0"
        by (simp add: upt_rec hang24_def)
      ultimately have "hang24 i = Some 0" by blast
      then show ?thesis using r0[of 23] by (simp add: eval_nat_numeral)
    qed
  qed
  moreover have "\<not> parents_first hang24 24"
    by (auto simp: parents_first_def hang24_def intro!: bexI[of _ 1])
  ultimately show ?thesis using hang24_ok by (simp add: valid_tree_def)
qed

lemma flat_zeros3 [simp]: "flat (zeros [3]) ! 0 = 0"
  by (simp add: zeros_def tabulate_def upt_rec)

lemma flat_ones3 [simp]: "flat (ones [3]) ! 0 = 1"
  by (simp add: ones_def tabulate_def upt_rec)


subsection \<open>Export\<close>













subsection \<open>Entries of the rotation matrices\<close>

lemma shape_scalar [simp]: "shape (scalar x) = []"
  by (simp add: scalar_def)

lemma upt3: "[0..<3] = [0, 1, 2]"
  by (simp add: upt_rec)

lemma theta_entries:
  assumes "shape r = [B, 1, 3]"
  obtains theta where "rodrigues_theta r = Inr theta" "shape theta = [B, 1, 1]" "wf_nd theta"
    "\<And>b. b < B \<Longrightarrow> get theta [b, 0, 0] = clamped_theta r b"
proof -
  obtain nrm where n: "norm_axes12 r = Inr nrm" "shape nrm = [B, 1, 1]"
    "\<And>b. b < B \<Longrightarrow> get nrm [b, 0, 0] = axis_norm r b"
    using assms by (simp add: norm_axes12_def ndim_def get_tabulate upt3 axis_norm_def)
  obtain theta where t: "bop max nrm (scalar float64_eps) = Inr theta"
    using n(2) by (simp add: bop_def bshape_def scalar_def)
  have sh: "shape theta = [B, 1, 1]"
    using t n(2) by (auto simp: bop_def bshape_def scalar_def)
  have "get theta [b, 0, 0] = clamped_theta r b" if "b < B" for b
    using bop_get[OF t, of "[b, 0, 0]"] that n(3)[OF that]
    by (simp add: sh n(2) bidx_same clamped_theta_def)
  then show ?thesis
    using that[of theta] t n(1) sh bop_wf[OF t] by (simp add: rodrigues_theta_def)
qed

lemma bidx_B11:
  "b < B \<Longrightarrow> bidx [B, 1, 1] [b, i, j] = [b, 0, 0]"
  "b < B \<Longrightarrow> bidx [B, Suc 0, Suc 0] [b, i, j] = [b, 0, 0]"
  by (auto simp: bidx_def)

lemma sum_list_ones: "\<forall>x\<in>set xs. f x = (1::nat) \<Longrightarrow> sum_list (map f xs) = length xs"
  by (induction xs) simp_all

lemma bidx_1: "b < B \<Longrightarrow> bidx [B] [b] = [b]"
  by (auto simp: bidx_def)

lemma r_hat_entries:
  assumes "shape r = [B, 1, 3]" "shape theta = [B, 1, 1]"
    "\<And>b. b < B \<Longrightarrow> get theta [b, 0, 0] = clamped_theta r b"
  obtains r_hat where "bop (/) r theta = Inr r_hat" "shape r_hat = [B, 1, 3]" "wf_nd r_hat"
    "\<And>b k. b < B \<Longrightarrow> k < 3 \<Longrightarrow> get r_hat [b, 0, k] = unit_axis r b k"
proof -
  obtain r_hat where t: "bop (/) r theta = Inr r_hat"
    using assms(1,2) by (simp add: bop_def bshape_def)
  have sh: "shape r_hat = [B, 1, 3]"
    using t assms(1,2) by (auto simp: bop_def bshape_def)
  have "get r_hat [b, 0, k] = unit_axis r b k" if "b < B" "k < 3" for b k
    using bop_get[OF t, of "[b, 0, k]"] that assms(3)[OF that(1)]
    by (simp add: sh assms(1,2) bidx_same bidx_B11 unit_axis_def)
  then show ?thesis
    using that[of r_hat] t sh bop_wf[OF t] by simp
qed

lemma stick_entries:
  assumes "shape r_hat = [B, 1, 3]" "k < 3"
  obtains x where "getitem r_hat [Slice 0 None, At 0, At k] = Inr x" "shape x = [B]" "wf_nd x"
    "\<And>b. b < B \<Longrightarrow> get x [b] = get r_hat [b, 0, k]"
proof -
  obtain x where x: "getitem r_hat [Slice 0 None, At 0, At k] = Inr x"
    using assms by (simp add: getitem_def)
  have sh: "shape x = [B]"
    using x assms by (auto simp: getitem_def)
  have "get x [b] = get r_hat [b, 0, k]" if "b < B" for b
    using getitem_get[OF x, of "[b]"] that by (simp add: sh)
  then show ?thesis
    using that[of x] x sh getitem_wf[OF x] by simp
qed

lemma pick_sticks:
  assumes "\<forall>x\<in>set xs. shape x = [1, B, 1]" "k < length xs"
  shows "pick xs 2 [0, b, k] = get (xs ! k) [0, b, 0]"
  using assms
proof (induction xs arbitrary: k)
  case Nil
  then show ?case by simp
next
  case (Cons a rest)
  show ?case
  proof (cases k)
    case 0
    then show ?thesis using Cons.prems by simp
  next
    case (Suc k')
    then have "pick rest 2 [0, b, k'] = get (rest ! k') [0, b, 0]"
      using Cons.prems by (intro Cons.IH) simp_all
    then show ?thesis using Cons.prems Suc by simp
  qed
qed

lemma get_atleast_3d: "shape x = [B] \<Longrightarrow> get (atleast_3d x) [0, b, 0] = get x [b]"
  by (simp add: atleast_3d_def get_def)

lemma shape_atleast_3d: "shape x = [B] \<Longrightarrow> shape (atleast_3d x) = [1, B, 1]"
  by (simp add: atleast_3d_def)

lemma dstack_sticks:
  assumes "\<forall>x\<in>set xs. shape x = [B]" "length xs = 9"
  obtains st m where "dstack xs = Inr st" "reshape st [- 1, 3, 3] = Inr m" "shape m = [B, 3, 3]"
    "wf_nd m" "\<And>b i j. b < B \<Longrightarrow> i < 3 \<Longrightarrow> j < 3 \<Longrightarrow> get m [b, i, j] = get (xs ! (3 * i + j)) [b]"
proof -
  obtain a rest where xs: "xs = a # rest" using assms(2) by (cases xs) auto
  let ?ys = "map atleast_3d xs"
  have ys: "\<forall>y\<in>set ?ys. shape y = [1, B, 1]"
    using assms(1) by (auto simp: shape_atleast_3d)
  have sm: "sum_list (map (\<lambda>b. shape b ! 2) ?ys) = 9"
    using sum_list_ones[of ?ys "\<lambda>b. shape b ! 2"] ys assms(2) by simp
  define st where "st = tabulate [1, B, 9] (pick ?ys 2)"
  have d: "dstack xs = Inr st"
    using ys sm unfolding dstack_def concatenate_def st_def xs
    by (simp add: ndim_def)
  define m where "m = NDArray [B, 3, 3] (flat st)"
  have r: "reshape st [- 1, 3, 3] = Inr m"
    by (simp add: reshape_def m_def st_def nd_size_def)
  have wf: "wf_nd m"
    by (simp add: m_def st_def wf_nd_def tabulate_def)
  have "get m [b, i, j] = get (xs ! (3 * i + j)) [b]" if "b < B" "i < 3" "j < 3" for b i j
  proof -
    have k: "3 * i + j < 9" using that by simp
    have "get m [b, i, j] = get st [0, b, 3 * i + j]"
      by (simp add: m_def get_def st_def algebra_simps)
    also have "\<dots> = pick ?ys 2 [0, b, 3 * i + j]"
      using that k by (simp add: st_def get_tabulate)
    also have "\<dots> = get (?ys ! (3 * i + j)) [0, b, 0]"
      using pick_sticks[of ?ys B "3 * i + j" b] ys k assms(2) by simp
    also have "\<dots> = get (xs ! (3 * i + j)) [b]"
      using k assms by (simp add: get_atleast_3d)
    finally show ?thesis .
  qed
  then show ?thesis
    using that[of st m] d r wf by (simp add: m_def)
qed

lemma nine_cases:
  assumes "i < (3::nat)" "j < (3::nat)"
  obtains "i = 0" "j = 0" | "i = 0" "j = 1" | "i = 0" "j = 2"
    | "i = 1" "j = 0" | "i = 1" "j = 1" | "i = 1" "j = 2"
    | "i = 2" "j = 0" | "i = 2" "j = 1" | "i = 2" "j = 2"
proof -
  have "i = 0 \<or> i = 1 \<or> i = 2" "j = 0 \<or> j = 1 \<or> j = 2" using assms by arith+
  then show ?thesis using that by blast
qed

lemma get_neg_stick:
  "wf_nd x \<Longrightarrow> shape x = [B] \<Longrightarrow> b < B \<Longrightarrow> get (map_nd uminus x) [b] = - get x [b]"
  by (simp add: get_map_nd)

lemma get_zero_stick: "b < B \<Longrightarrow> get (zeros [B]) [b] = 0"
  by (simp add: get_zeros)

lemma i_cube_entries:
  obtains i_cube where "broadcast_to (expand_dims0 (eye 3)) [int B, 3, 3] = Inr i_cube"
    "shape i_cube = [B, 3, 3]"
    "\<And>b i j. b < B \<Longrightarrow> i < 3 \<Longrightarrow> j < 3 \<Longrightarrow> get i_cube [b, i, j] = (if i = j then 1 else 0)"
proof -
  define i_cube where "i_cube = tabulate [B, 3, 3] (\<lambda>idx. get (expand_dims0 (eye 3)) (bidx [1, 3, 3] idx))"
  have e: "broadcast_to (expand_dims0 (eye 3)) [int B, 3, 3] = Inr i_cube"
    by (simp add: broadcast_to_def expand_dims0_def eye_def i_cube_def)
  have "get i_cube [b, i, j] = (if i = j then 1 else 0)" if "b < B" "i < 3" "j < 3" for b i j
  proof -
    have "get i_cube [b, i, j] = get (expand_dims0 (eye 3)) [0, i, j]"
      using that by (simp add: i_cube_def get_tabulate bidx_def)
    also have "\<dots> = get (eye 3) [i, j]"
      by (simp add: expand_dims0_def get_def eye_def)
    also have "\<dots> = (if i = j then 1 else 0)"
      using that by (simp add: eye_def get_tabulate)
    finally show ?thesis .
  qed
  then show ?thesis using that[of i_cube] e by (simp add: i_cube_def)
qed

lemma outer_entries:
  assumes "shape r_hat = [B, 1, 3]"
  obtains A dt where "transpose_nd r_hat [0, 2, 1] = Inr A" "matmul A r_hat = Inr dt"
    "shape dt = [B, 3, 3]"
    "\<And>b i j. b < B \<Longrightarrow> i < 3 \<Longrightarrow> j < 3 \<Longrightarrow>
       get dt [b, i, j] = get r_hat [b, 0, i] * get r_hat [b, 0, j]"
proof -
  define A where "A = tabulate [B, 3, 1]
    (\<lambda>idx. get r_hat (map (\<lambda>k. idx ! length (takeWhile (\<lambda>x. x \<noteq> k) [0, 2, 1])) [0..<3]))"
  have tA: "transpose_nd r_hat [0, 2, 1] = Inr A"
    using assms by (simp add: transpose_nd_def ndim_def set3 A_def upt3)
  have gA: "get A [b, i, 0] = get r_hat [b, 0, i]" if "b < B" "i < 3" for b i
    using that by (simp add: A_def get_tabulate upt3)
  define dt where "dt = tabulate [B, 3, 3]
    (\<lambda>idx. sum_list (map (\<lambda>k. get A (bidx [B] (take 1 idx) @ [idx ! 1, k]) *
                              get r_hat (bidx [B] (take 1 idx) @ [k, idx ! Suc (Suc 0)])) [0..<1]))"
  have shA: "shape A = [B, 3, 1]" by (simp add: A_def)
  have m: "matmul A r_hat = Inr dt"
    using assms shA by (simp add: matmul_def ndim_def bshape_def dt_def Let_def)
  have "get dt [b, i, j] = get r_hat [b, 0, i] * get r_hat [b, 0, j]"
    if "b < B" "i < 3" "j < 3" for b i j
    using that gA[OF that(1,2)] by (simp add: dt_def get_tabulate bidx_1)
  then show ?thesis using that[of A dt] tA m by (simp add: dt_def)
qed

lemma bop_133:
  assumes "shape a = [B, 1, 1]" "shape c = [B, 3, 3]"
  obtains x where "bop f a c = Inr x" "shape x = [B, 3, 3]"
    "\<And>b i j. b < B \<Longrightarrow> i < 3 \<Longrightarrow> j < 3 \<Longrightarrow> get x [b, i, j] = f (get a [b, 0, 0]) (get c [b, i, j])"
proof -
  obtain x where x: "bop f a c = Inr x"
    using assms by (simp add: bop_def bshape_def)
  have sh: "shape x = [B, 3, 3]"
    using x assms by (auto simp: bop_def bshape_def)
  have "get x [b, i, j] = f (get a [b, 0, 0]) (get c [b, i, j])" if "b < B" "i < 3" "j < 3" for b i j
    using bop_get[OF x, of "[b, i, j]"] that by (simp add: sh assms bidx_same bidx_B11)
  then show ?thesis using that[of x] x sh by simp
qed

lemma bop_333:
  assumes "shape a = [B, 3, 3]" "shape c = [B, 3, 3]"
  obtains x where "bop f a c = Inr x" "shape x = [B, 3, 3]"
    "\<And>b i j. b < B \<Longrightarrow> i < 3 \<Longrightarrow> j < 3 \<Longrightarrow> get x [b, i, j] = f (get a [b, i, j]) (get c [b, i, j])"
proof -
  obtain x where x: "bop f a c = Inr x"
    using assms by (simp add: bop_def bshape_def)
  have sh: "shape x = [B, 3, 3]"
    using x assms by (auto simp: bop_def bshape_def)
  have "get x [b, i, j] = f (get a [b, i, j]) (get c [b, i, j])" if "b < B" "i < 3" "j < 3" for b i j
    using bop_get[OF x, of "[b, i, j]"] that by (simp add: sh assms bidx_same)
  then show ?thesis using that[of x] x sh by simp
qed

lemma one_minus_entries:
  assumes "shape a = [B, 1, 1]"
  obtains x where "bop (-) (scalar 1) a = Inr x" "shape x = [B, 1, 1]"
    "\<And>b. b < B \<Longrightarrow> get x [b, 0, 0] = 1 - get a [b, 0, 0]"
proof -
  obtain x where x: "bop (-) (scalar 1) a = Inr x"
    using assms by (simp add: bop_def bshape_def)
  have sh: "shape x = [B, 1, 1]"
    using x assms by (auto simp: bop_def bshape_def)
  have "get x [b, 0, 0] = 1 - get a [b, 0, 0]" if "b < B" for b
    using bop_get[OF x, of "[b, 0, 0]"] that by (simp add: sh assms bidx_same)
  then show ?thesis using that[of x] x sh by simp
qed

lemma rodrigues_entries:
  assumes "shape r = [B, 1, 3]"
  obtains Rv where "rodrigues r = Inr Rv" "shape Rv = [B, 3, 3]"
    "\<And>b i j. b < B \<Longrightarrow> i < 3 \<Longrightarrow> j < 3 \<Longrightarrow> get Rv [b, i, j] = rodrigues_formula r b i j"
proof -
  obtain theta where th: "rodrigues_theta r = Inr theta" "shape theta = [B, 1, 1]" "wf_nd theta"
    "\<And>b. b < B \<Longrightarrow> get theta [b, 0, 0] = clamped_theta r b"
    using assms by (rule theta_entries) (rule that)
  obtain r_hat where rh: "bop (/) r theta = Inr r_hat" "shape r_hat = [B, 1, 3]" "wf_nd r_hat"
    "\<And>b k. b < B \<Longrightarrow> k < 3 \<Longrightarrow> get r_hat [b, 0, k] = unit_axis r b k"
    using assms th(2,4) by (rule r_hat_entries) auto
  have n: "shape_at theta 0 = Inr B"
    using th(2) by (simp add: shape_at_def ndim_def)
  obtain r02 where r02: "getitem r_hat [Slice 0 None, At 0, At 2] = Inr r02" "shape r02 = [B]"
    "wf_nd r02" "\<And>b. b < B \<Longrightarrow> get r02 [b] = get r_hat [b, 0, 2]"
    using rh(2) by (rule stick_entries[of r_hat B 2]) auto
  obtain r01 where r01: "getitem r_hat [Slice 0 None, At 0, At 1] = Inr r01" "shape r01 = [B]"
    "wf_nd r01" "\<And>b. b < B \<Longrightarrow> get r01 [b] = get r_hat [b, 0, 1]"
    using rh(2) by (rule stick_entries[of r_hat B 1]) auto
  obtain r00 where r00: "getitem r_hat [Slice 0 None, At 0, At 0] = Inr r00" "shape r00 = [B]"
    "wf_nd r00" "\<And>b. b < B \<Longrightarrow> get r00 [b] = get r_hat [b, 0, 0]"
    using rh(2) by (rule stick_entries[of r_hat B 0]) auto
  let ?xs = "[zeros [B], map_nd uminus r02, r01, r02, zeros [B], map_nd uminus r00,
    map_nd uminus r01, r00, zeros [B]]"
  obtain st m where st: "dstack ?xs = Inr st" and m: "reshape st [- 1, 3, 3] = Inr m"
    "shape m = [B, 3, 3]"
    and mg: "\<And>b i j. b < B \<Longrightarrow> i < 3 \<Longrightarrow> j < 3 \<Longrightarrow> get m [b, i, j] = get (?xs ! (3 * i + j)) [b]"
    by (rule dstack_sticks[of ?xs B]) (auto simp: r02(2) r01(2) r00(2))
  have mc: "get m [b, i, j] = cross_matrix (unit_axis r b) i j" if "b < B" "i < 3" "j < 3" for b i j
    using that(2,3)
  proof (cases rule: nine_cases)
  qed (simp_all add: mg cross_matrix_def get_zero_stick get_neg_stick that(1)
        r02 r01 r00 rh(4))
  obtain i_cube where ic: "broadcast_to (expand_dims0 (eye 3)) [int B, 3, 3] = Inr i_cube"
    "shape i_cube = [B, 3, 3]"
    "\<And>b i j. b < B \<Longrightarrow> i < 3 \<Longrightarrow> j < 3 \<Longrightarrow> get i_cube [b, i, j] = (if i = j then 1 else 0)"
    by (rule i_cube_entries) auto
  obtain A dt where A: "transpose_nd r_hat [0, 2, 1] = Inr A" and dt: "matmul A r_hat = Inr dt"
    "shape dt = [B, 3, 3]"
    "\<And>b i j. b < B \<Longrightarrow> i < 3 \<Longrightarrow> j < 3 \<Longrightarrow>
       get dt [b, i, j] = get r_hat [b, 0, i] * get r_hat [b, 0, j]"
    using rh(2) by (rule outer_entries) auto
  have cs: "shape (map_nd cos theta) = [B, 1, 1]" "shape (map_nd sin theta) = [B, 1, 1]"
    using th(2) by simp_all
  have cg: "get (map_nd cos theta) [b, 0, 0] = cos (clamped_theta r b)"
    "get (map_nd sin theta) [b, 0, 0] = sin (clamped_theta r b)" if "b < B" for b
    using that th by (simp_all add: get_map_nd)
  obtain t1 where t1: "bop (*) (map_nd cos theta) i_cube = Inr t1" "shape t1 = [B, 3, 3]"
    "\<And>b i j. b < B \<Longrightarrow> i < 3 \<Longrightarrow> j < 3 \<Longrightarrow>
       get t1 [b, i, j] = get (map_nd cos theta) [b, 0, 0] * get i_cube [b, i, j]"
    using cs(1) ic(2) by (rule bop_133[where f = "(*)"]) auto
  obtain omc where omc: "bop (-) (scalar 1) (map_nd cos theta) = Inr omc" "shape omc = [B, 1, 1]"
    "\<And>b. b < B \<Longrightarrow> get omc [b, 0, 0] = 1 - get (map_nd cos theta) [b, 0, 0]"
    using cs(1) by (rule one_minus_entries) auto
  obtain t2 where t2: "bop (*) omc dt = Inr t2" "shape t2 = [B, 3, 3]"
    "\<And>b i j. b < B \<Longrightarrow> i < 3 \<Longrightarrow> j < 3 \<Longrightarrow> get t2 [b, i, j] = get omc [b, 0, 0] * get dt [b, i, j]"
    using omc(2) dt(2) by (rule bop_133[where f = "(*)"]) auto
  obtain t12 where t12: "bop (+) t1 t2 = Inr t12" "shape t12 = [B, 3, 3]"
    "\<And>b i j. b < B \<Longrightarrow> i < 3 \<Longrightarrow> j < 3 \<Longrightarrow> get t12 [b, i, j] = get t1 [b, i, j] + get t2 [b, i, j]"
    using t1(2) t2(2) by (rule bop_333[where f = "(+)"]) auto
  obtain t3 where t3: "bop (*) (map_nd sin theta) m = Inr t3" "shape t3 = [B, 3, 3]"
    "\<And>b i j. b < B \<Longrightarrow> i < 3 \<Longrightarrow> j < 3 \<Longrightarrow>
       get t3 [b, i, j] = get (map_nd sin theta) [b, 0, 0] * get m [b, i, j]"
    using cs(2) m(2) by (rule bop_133[where f = "(*)"]) auto
  obtain Rv where Rv: "bop (+) t12 t3 = Inr Rv" "shape Rv = [B, 3, 3]"
    "\<And>b i j. b < B \<Longrightarrow> i < 3 \<Longrightarrow> j < 3 \<Longrightarrow> get Rv [b, i, j] = get t12 [b, i, j] + get t3 [b, i, j]"
    using t12(2) t3(2) by (rule bop_333[where f = "(+)"]) auto
  have run: "rodrigues r = Inr Rv"
    by (simp only: rodrigues_def Let_def th(1) rh(1) n r02(1) r01(1) r00(1) st m(1) ic(1) A dt(1)
        t1(1) omc(1) t2(1) t12(1) t3(1) Rv(1) bnd_Inr)
  have "get Rv [b, i, j] = rodrigues_formula r b i j" if "b < B" "i < 3" "j < 3" for b i j
    using that
    by (simp add: Rv(3) t12(3) t3(3) t2(3) t1(3) omc(3) dt(3) ic(3) cg mc rh(4)
        rodrigues_formula_def)
  then show ?thesis using that[of Rv] run Rv(2) by simp
qed

lemma float64_eps_pos: "0 < float64_eps"
  by (simp add: float64_eps_def)

lemma clamped_theta_ge: "float64_eps \<le> clamped_theta r b"
  by (simp add: clamped_theta_def)

lemma clamped_theta_zero:
  assumes "\<forall>k<3. get r [b, 0, k] = 0"
  shows "clamped_theta r b = float64_eps"
proof -
  have "get r [b, 0, 0] = 0" "get r [b, 0, 1] = 0" "get r [b, 0, 2] = 0"
    using assms by simp_all
  then show ?thesis
    using float64_eps_pos by (simp add: clamped_theta_def axis_norm_def)
qed

lemma rodrigues_formula_zero:
  assumes "\<forall>k<3. get r [b, 0, k] = 0" "i < 3" "j < 3"
  shows "rodrigues_formula r b i j = (if i = j then cos float64_eps else 0)"
proof -
  have u: "unit_axis r b k = 0" if "k < 3" for k
    using assms(1) that by (simp add: unit_axis_def)
  have "cross_matrix (unit_axis r b) i j = 0"
    using assms(2,3)
    by (cases rule: nine_cases) (simp_all add: cross_matrix_def u)
  then show ?thesis
    using assms(2) by (simp add: rodrigues_formula_def clamped_theta_zero[OF assms(1)] u)
qed

section \<open>Claims\<close>




text \<open>
  C2 (amended). When \<^verbatim>\<open>set_params\<close> raises, \<^verbatim>\<open>self.verts\<close> is what it was before the
  call, but the three assignments of lines 64 to 69 have been made: \<^verbatim>\<open>pose\<close>,
  \<^verbatim>\<open>beta\<close> and \<^verbatim>\<open>trans\<close> hold the arguments that were supplied (and their
  previous values where an argument was left out).
\<close>

theorem set_params_failure_keeps_verts_only:
  assumes "set_params g s pose_arg beta_arg trans_arg = (Inl e, s')"
  shows "verts s' = verts s \<and>
         pose s' = (case pose_arg of None \<Rightarrow> pose s | Some p \<Rightarrow> p) \<and>
         beta s' = (case beta_arg of None \<Rightarrow> beta s | Some b \<Rightarrow> b) \<and>
         trans s' = (case trans_arg of None \<Rightarrow> trans s | Some t \<Rightarrow> t)"
  using set_params_state(1,2,3)[OF assms] set_params_state(4)[OF assms] by simp

theorem set_params_failure_keeps_verts_only_witness:
  "fst (set_params g0 the_model (Some (ones [24, 3])) (Some (zeros [11])) None) = Inl ValueError \<and>
   verts (snd (set_params g0 the_model (Some (ones [24, 3])) (Some (zeros [11])) None))
     = verts the_model \<and>
   pose (snd (set_params g0 the_model (Some (ones [24, 3])) (Some (zeros [11])) None))
     = ones [24, 3]"
proof -
  have f: "fst (set_params g0 the_model (Some (ones [24, 3])) (Some (zeros [11])) None)
      = Inl ValueError"
    by (rule bad_beta_fails)
  then have "set_params g0 the_model (Some (ones [24, 3])) (Some (zeros [11])) None =
      (Inl ValueError, snd (set_params g0 the_model (Some (ones [24, 3])) (Some (zeros [11])) None))"
    by (metis prod.collapse)
  from set_params_failure_keeps_verts_only [OF this] f show ?thesis by simp
qed

text \<open>
  C2, as stated, fails: a call with a shape vector of 11 entries raises at line 78, and
  the pose it was given is stored all the same.
\<close>

theorem failed_call_stores_pose:
  "isl (fst (set_params g0 the_model (Some (ones [24, 3])) (Some (zeros [11])) None)) \<and>
   pose (snd (set_params g0 the_model (Some (ones [24, 3])) (Some (zeros [11])) None))
     \<noteq> pose the_model"
proof -
  have f: "fst (set_params g0 the_model (Some (ones [24, 3])) (Some (zeros [11])) None)
      = Inl ValueError"
    by (rule bad_beta_fails)
  have "pose (snd (set_params g0 the_model (Some (ones [24, 3])) (Some (zeros [11])) None))
      = ones [24, 3]"
    using set_params_state(1) [of g0 the_model "Some (ones [24, 3])" "Some (zeros [11])" None]
    by (metis option.simps(5) prod.collapse)
  moreover have "ones [24, 3] \<noteq> zeros [24, 3]"
    by (rule ones_neq_zeros)
  ultimately show ?thesis using f by (simp add: the_model_facts(3))
qed




text \<open>
  C3 (amended). The pipeline does not work for any joint count. On a rig of consistent
  dimensions with \<open>K\<close> joints and \<open>N\<close> vertices, with a pose of shape [K, 3], a shape
  vector of shape [10] and a translation of shape [3], \<^verbatim>\<open>update\<close> completes (and stores
  \<open>N\<close> vertices) if \<open>K\<close> is 24, and raises ValueError for every other \<open>K\<close>: line 105
  stacks the \<open>K\<close> rest joints with \<^verbatim>\<open>np.zeros([24, 1])\<close>.
\<close>

theorem update_only_for_24_joints:
  assumes "rig_dims s K N" and "0 < K"
    and "shape (beta s) = [10]" and "shape (pose s) = [K, 3]" and "shape (trans s) = [3]"
  shows "if K = 24
         then \<exists>s' v. update g s = (Inr (), s') \<and> verts s' = Some v \<and> shape v = [N, 3]
         else fst (update g s) = Inl ValueError"
  using update_K[OF assms(1,2,3), of g] assms(4,5) by (simp add: nd_size_def)

theorem update_only_for_24_joints_witness:
  "rig_dims (rig2_object\<lparr>pose := rig2_pose\<rparr>) 2 2 \<and> (0::nat) < 2 \<and>
   shape (beta (rig2_object\<lparr>pose := rig2_pose\<rparr>)) = [10] \<and>
   shape (pose (rig2_object\<lparr>pose := rig2_pose\<rparr>)) = [2, 3] \<and>
   shape (trans (rig2_object\<lparr>pose := rig2_pose\<rparr>)) = [3] \<and>
   fst (update g0 (rig2_object\<lparr>pose := rig2_pose\<rparr>)) = Inl ValueError"
proof -
  have d: "rig_dims (rig2_object\<lparr>pose := rig2_pose\<rparr>) 2 2"
    using rig2_dims by simp
  have o: "shape (beta (rig2_object\<lparr>pose := rig2_pose\<rparr>)) = [10]"
    "shape (pose (rig2_object\<lparr>pose := rig2_pose\<rparr>)) = [2, 3]"
    "shape (trans (rig2_object\<lparr>pose := rig2_pose\<rparr>)) = [3]"
    by (simp_all add: rig2_object_def rig2_pose_def zeros_def)
  from update_only_for_24_joints [OF d _ o, of g0] d o show ?thesis by simp
qed

text \<open>
  C3, as stated, fails on the rig it names. With two joints the constructor itself
  raises (its first \<^verbatim>\<open>update\<close>, on the pose of zeros of shape [24, 3], cannot apply
  the pose blend basis of a rig with one child), and on an object holding that rig
  \<^verbatim>\<open>set_params\<close> with the pose and translation of the scenario raises at line 105.
\<close>

theorem two_joint_rig_raises:
  "SMPLModel_init g0 rig2_params = Inl ValueError \<and>
   fst (set_params g0 rig2_object (Some rig2_pose) None (Some (zeros [3]))) = Inl ValueError"
  using rig2_init_fails rig2_set_params_fails by simp

text \<open>
  C10. The loop of lines 94 to 101 fills \<^verbatim>\<open>G\<close> in increasing joint order and reads
  \<^verbatim>\<open>G[parent[i]]\<close> from it. When every joint comes after its parent
  (\<open>parents_first\<close>), the array it returns satisfies the recurrence: row 0 is the local
  transform of the root and row \<open>i\<close> is row \<open>parent i\<close> times the local transform of
  \<open>i\<close>. Every such parent map is a tree rooted at joint 0, but not every tree is one:
  for the tree 1 \<rightarrow> 2 \<rightarrow> 0 on three joints the loop reads row 2 before writing it, and
  with a buffer holding 1 at position 35 the result violates the recurrence at joint 1.
\<close>

theorem recurrence_needs_parents_first:
  "(\<forall>g par K Rv Jv G. parents_first par K \<longrightarrow> world_transforms g par K Rv Jv = Inr G \<longrightarrow>
       satisfies_recurrence par K Rv Jv G) \<and>
   (\<forall>par K. parents_first par K \<longrightarrow> valid_tree par K) \<and>
   (\<exists>g par K Rv Jv G. valid_tree par K \<and> \<not> parents_first par K \<and>
       world_transforms g par K Rv Jv = Inr G \<and> \<not> satisfies_recurrence par K Rv Jv G)"
proof (intro conjI allI impI)
  fix g par K Rv Jv G
  assume "parents_first par K" "world_transforms g par K Rv Jv = Inr G"
  then show "satisfies_recurrence par K Rv Jv G" by (rule world_transforms_recurrence)
next
  fix par K assume "parents_first par K"
  then show "valid_tree par K" by (rule parents_first_valid_tree)
next
  show "\<exists>g par K Rv Jv G. valid_tree par K \<and> \<not> parents_first par K \<and>
       world_transforms g par K Rv Jv = Inr G \<and> \<not> satisfies_recurrence par K Rv Jv G"
    using tree3_valid tree3_breaks_recurrence by blast
qed

theorem recurrence_needs_parents_first_witness:
  "parents_first chain3 3 \<and> valid_tree chain3 3 \<and>
   (\<exists>G. world_transforms g0 chain3 3 rot3 (zeros [3, 3]) = Inr G \<and>
        satisfies_recurrence chain3 3 rot3 (zeros [3, 3]) G)"
proof -
  obtain G where G: "world_transforms g0 chain3 3 rot3 (zeros [3, 3]) = Inr G"
    using world3_ok[of chain3 g0] by (auto simp: set13 chain3_def)
  from recurrence_needs_parents_first chain3_first G
  have "satisfies_recurrence chain3 3 rot3 (zeros [3, 3]) G" "valid_tree chain3 3"
    by blast+
  then show ?thesis using chain3_first G by blast
qed



text \<open>
  C9 (amended). Determinism holds for a rig whose joints are in parent-before-child order.
  Take two objects with the same rig, and a call of \<^verbatim>\<open>set_params\<close> on each with the same
  arguments (where an argument is left out, the stored values agree). If every joint comes
  after its parent, the two calls return the same result, whatever the uninitialised
  buffer of line 92 holds in each call and whatever \<^verbatim>\<open>verts\<close>, \<^verbatim>\<open>J\<close> and \<^verbatim>\<open>R\<close> the
  objects had cached.
\<close>

theorem set_params_deterministic:
  assumes "same_rig s1 s2"
    and "parents_first (parent s1) (joint_count s1)"
    and "pose_arg = None \<longrightarrow> pose s1 = pose s2"
    and "beta_arg = None \<longrightarrow> beta s1 = beta s2"
    and "trans_arg = None \<longrightarrow> trans s1 = trans s2"
  shows "fst (set_params g1 s1 pose_arg beta_arg trans_arg)
       = fst (set_params g2 s2 pose_arg beta_arg trans_arg)"
  using assms by (intro set_params_fst_eq) auto

theorem set_params_deterministic_witness:
  "same_rig the_model (the_model\<lparr>verts := None\<rparr>) \<and>
   parents_first (parent the_model) (joint_count the_model) \<and>
   beta the_model = beta (the_model\<lparr>verts := None\<rparr>) \<and>
   fst (set_params g0 the_model (Some (ones [24, 3])) None (Some (ones [3])))
     = fst (set_params g35 (the_model\<lparr>verts := None\<rparr>) (Some (ones [24, 3])) None (Some (ones [3])))"
proof -
  have s: "same_rig the_model (the_model\<lparr>verts := None\<rparr>)"
    by (simp add: same_rig_def)
  from set_params_deterministic [OF s the_model_parents_first,
      of "Some (ones [24, 3])" None "Some (ones [3])" g0 g35]
  show ?thesis using s the_model_parents_first by simp
qed

text \<open>
  C9, as stated, fails on a rig that is a tree but not in parent-before-child order
  (joint 1 hangs on joint 2): the same call on the same object returns different
  vertices for two contents of the uninitialised buffer.
\<close>

theorem uninitialised_buffer_changes_output:
  "valid_tree (parent hang24_model) 24 \<and>
   fst (set_params g0 hang24_model None None (Some (zeros [3])))
     \<noteq> fst (set_params g35 hang24_model None None (Some (zeros [3])))"
proof -
  obtain V0 where V0: "fst (set_params g0 hang24_model None None (Some (zeros [3]))) = Inr (Some V0)"
      "get V0 [0, 0] = g0 35 + flat (zeros [3]) ! 0"
    using hang24_vertex[of "zeros [3]" g0] by (auto simp: nd_size_def)
  obtain V1 where V1: "fst (set_params g35 hang24_model None None (Some (zeros [3]))) = Inr (Some V1)"
      "get V1 [0, 0] = g35 35 + flat (zeros [3]) ! 0"
    using hang24_vertex[of "zeros [3]" g35] by (auto simp: nd_size_def)
  have "get V0 [0, 0] \<noteq> get V1 [0, 0]"
    using V0(2) V1(2) by (simp add: g0_def g35_def)
  then have "V0 \<noteq> V1" by auto
  then show ?thesis using V0(1) V1(1) hang24_tree by (simp add: hang24_model_facts)
qed



text \<open>
  C6. For every batch \<open>r\<close> of \<open>B\<close> axis-angle vectors (shape [B, 1, 3]), \<^verbatim>\<open>rodrigues\<close>
  returns, without raising, an array of shape [B, 3, 3] whose matrix \<open>b\<close> is
  \<open>cos(theta) I + (1 - cos(theta)) u u\<^sup>T + sin(theta) [u]\<^sub>\<times>\<close> with
  \<open>theta = max(norm r\<^sub>b, eps)\<close> and \<open>u = r\<^sub>b / theta\<close>. The divisor \<open>theta\<close> is positive;
  for a zero vector it is \<open>eps\<close> and the matrix is \<open>cos(eps) I\<close>.
\<close>

theorem rodrigues_computes_formula:
  assumes "shape r = [B, 1, 3]"
  shows "\<exists>Rv. rodrigues r = Inr Rv \<and> shape Rv = [B, 3, 3] \<and>
     (\<forall>b<B. 0 < clamped_theta r b \<and>
        (\<forall>i<3. \<forall>j<3. get Rv [b, i, j] = rodrigues_formula r b i j) \<and>
        ((\<forall>k<3. get r [b, 0, k] = 0) \<longrightarrow> clamped_theta r b = float64_eps \<and>
           (\<forall>i<3. \<forall>j<3. get Rv [b, i, j] = (if i = j then cos float64_eps else 0))))"
proof -
  obtain Rv where Rv: "rodrigues r = Inr Rv" "shape Rv = [B, 3, 3]"
    "\<And>b i j. b < B \<Longrightarrow> i < 3 \<Longrightarrow> j < 3 \<Longrightarrow> get Rv [b, i, j] = rodrigues_formula r b i j"
    using assms by (rule rodrigues_entries) auto
  have "0 < clamped_theta r b" for b
    using clamped_theta_ge[of r b] float64_eps_pos by simp
  then show ?thesis
    using Rv by (auto simp: clamped_theta_zero rodrigues_formula_zero)
qed

theorem rodrigues_computes_formula_witness:
  "shape two_vectors = [2, 1, 3] \<and>
   (\<exists>Rv. rodrigues two_vectors = Inr Rv \<and> shape Rv = [2, 3, 3] \<and>
      get Rv [0, 0, 0] = cos float64_eps \<and> get Rv [0, 0, 1] = 0 \<and>
      get Rv [1, 0, 0] = cos 2 \<and> get Rv [1, 0, 1] = - sin 2 \<and>
      get Rv [1, 1, 0] = sin 2 \<and> get Rv [1, 2, 2] = 1)"
proof -
  have sh: "shape two_vectors = [2, 1, 3]" by (simp add: two_vectors_def)
  have g: "get two_vectors [0, 0, k] = 0" if "k < 3" for k
  proof -
    have "k = 0 \<or> k = 1 \<or> k = 2" using that by arith
    then show ?thesis by (auto simp: two_vectors_def get_def)
  qed
  have g1: "get two_vectors [1, 0, 0] = 0" "get two_vectors [1, 0, 1] = 0"
    "get two_vectors [1, 0, 2] = 2"
    by (simp_all add: two_vectors_def get_def)
  have an: "axis_norm two_vectors (Suc 0) = 2"
    by (simp add: axis_norm_def two_vectors_def get_def)
  have th: "clamped_theta two_vectors (Suc 0) = 2"
    unfolding clamped_theta_def an by (simp add: float64_eps_def)
  have u: "unit_axis two_vectors (Suc 0) 0 = 0" "unit_axis two_vectors (Suc 0) (Suc 0) = 0"
    "unit_axis two_vectors (Suc 0) 2 = 1"
    unfolding unit_axis_def th by (simp_all add: two_vectors_def get_def)
  from rodrigues_computes_formula[OF sh] obtain Rv where
    Rv: "rodrigues two_vectors = Inr Rv" "shape Rv = [2, 3, 3]"
    and e: "\<forall>b<2. 0 < clamped_theta two_vectors b \<and>
        (\<forall>i<3. \<forall>j<3. get Rv [b, i, j] = rodrigues_formula two_vectors b i j) \<and>
        ((\<forall>k<3. get two_vectors [b, 0, k] = 0) \<longrightarrow> clamped_theta two_vectors b = float64_eps \<and>
           (\<forall>i<3. \<forall>j<3. get Rv [b, i, j] = (if i = j then cos float64_eps else 0)))"
    by blast
  have lt: "(0::nat) < 2" "(1::nat) < 2" by simp_all
  have z: "\<forall>i<3. \<forall>j<3. get Rv [0, i, j] = (if i = j then cos float64_eps else 0)"
    using e g lt(1) by blast
  have o: "\<forall>i<3. \<forall>j<3. get Rv [1, i, j] = rodrigues_formula two_vectors 1 i j"
    using e lt(2) by blast
  have "get Rv [0, 0, 0] = cos float64_eps" "get Rv [0, 0, 1] = 0"
    using z by simp_all
  moreover have "get Rv [1, 0, 0] = cos 2" "get Rv [1, 0, 1] = - sin 2"
    "get Rv [1, 1, 0] = sin 2" "get Rv [1, 2, 2] = 1"
    using o by (simp_all add: rodrigues_formula_def cross_matrix_def th u)
  ultimately show ?thesis using sh Rv by blast
qed

end
